theory Spec2Isabelle
  imports Main "HOL-Library.List_Lexorder" "HOL-Library.Product_Lexorder"
begin

section \<open>Errors\<close>

text \<open>
  Every \<^verbatim>\<open>raise\<close> of \<^verbatim>\<open>cupyx/distributed/_array.py\<close> (and of the Python
  built-ins it calls) is a value: results have the type \<open>error + 'a\<close>, with \<open>Inl\<close> the
  exception.  The messages are dropped, the exception classes are kept.
\<close>

datatype error =
    IndexError | ValueError | RuntimeError | AssertionError
  | TypeError | KeyError | AttributeError | ZeroDivisionError | UnboundLocalError

definition ebind :: "error + 'a \<Rightarrow> ('a \<Rightarrow> error + 'b) \<Rightarrow> error + 'b" where
  "ebind m f = (case m of Inl e \<Rightarrow> Inl e | Inr x \<Rightarrow> f x)"

fun emap :: "('a \<Rightarrow> error + 'b) \<Rightarrow> 'a list \<Rightarrow> error + 'b list" where
  "emap f [] = Inr []"
| "emap f (x # xs) = ebind (f x) (\<lambda>y. ebind (emap f xs) (\<lambda>ys. Inr (y # ys)))"

section \<open>Python slices\<close>

text \<open>
  A Python \<^verbatim>\<open>slice(start, stop, step)\<close>; each field may be \<^verbatim>\<open>None\<close>.
  \<open>slice_indices\<close> is the built-in \<^verbatim>\<open>slice.indices(length)\<close>.
\<close>

datatype slice = Slice (slice_start: "int option") (slice_stop: "int option")
  (slice_step: "int option")

definition slice_indices :: "slice \<Rightarrow> int \<Rightarrow> error + (int \<times> int \<times> int)" where
  "slice_indices s len =
    (let step = (case slice_step s of None \<Rightarrow> 1 | Some k \<Rightarrow> k) in
     if len < 0 then Inl ValueError
     else if step = 0 then Inl ValueError
     else
       let lower = (if step < 0 then - 1 else 0);
           upper = (if step < 0 then len - 1 else len);
           start = (case slice_start s of
                      None \<Rightarrow> (if step < 0 then upper else lower)
                    | Some v \<Rightarrow> (if v < 0 then max (v + len) lower else min v upper));
           stop = (case slice_stop s of
                      None \<Rightarrow> (if step < 0 then lower else upper)
                    | Some v \<Rightarrow> (if v < 0 then max (v + len) lower else min v upper))
       in Inr (start, stop, step))"

text \<open>Membership of an index in \<^verbatim>\<open>range(start, stop, step)\<close>.\<close>

definition in_range :: "int \<times> int \<times> int \<Rightarrow> int \<Rightarrow> bool" where
  "in_range r i =
    (case r of (start, stop, step) \<Rightarrow>
       if step > 0 then start \<le> i \<and> i < stop \<and> (i - start) mod step = 0
       else if step < 0 then stop < i \<and> i \<le> start \<and> (start - i) mod (- step) = 0
       else False)"

text \<open>The indices a slice selects on an axis of size \<open>length\<close>.\<close>

definition slice_contains :: "slice \<Rightarrow> int \<Rightarrow> int \<Rightarrow> bool" where
  "slice_contains s len i =
    (case slice_indices s len of Inl e \<Rightarrow> False | Inr r \<Rightarrow> in_range r i)"

definition positive_step :: "slice \<Rightarrow> bool" where
  "positive_step s = (case slice_step s of None \<Rightarrow> True | Some k \<Rightarrow> k > 0)"

section \<open>Index algebra\<close>

text \<open>\<^verbatim>\<open>_extgcd\<close>: the loop \<^verbatim>\<open>while d:\<close> on the state \<open>(c, d, x, u)\<close>.\<close>

function extgcd_loop :: "int \<Rightarrow> int \<Rightarrow> int \<Rightarrow> int \<Rightarrow> int \<times> int" where
  "extgcd_loop c d x u =
    (if d = 0 then (c, x)
     else let r = c div d in extgcd_loop d (c - d * r) u (x - u * r))"
  by pat_completeness auto
termination
proof (relation "measure (\<lambda>(c, d, x, u). nat \<bar>d\<bar>)")
  show "wf (measure (\<lambda>(c, d, x, u). nat \<bar>d\<bar>))" by simp
next
  fix c d x u r :: int
  assume d: "d \<noteq> 0" and r: "r = c div d"
  have "c - d * r = c mod d" using r by (simp add: minus_mult_div_eq_mod)
  moreover have "\<bar>c mod d\<bar> < \<bar>d\<bar>" using d by (rule abs_mod_less)
  ultimately show "((d, c - d * r, u, x - u * r), (c, d, x, u))
      \<in> measure (\<lambda>(c, d, x, u). nat \<bar>d\<bar>)" by simp
qed

declare extgcd_loop.simps [simp del]

definition extgcd :: "int \<Rightarrow> int \<Rightarrow> int \<times> int" where
  "extgcd a b = extgcd_loop a b 1 0"

text \<open>
  \<^verbatim>\<open>_slice_intersection\<close>.  Python's \<^verbatim>\<open>//\<close> and \<^verbatim>\<open>%\<close> are floor division and its
  remainder, as \<open>div\<close> and \<open>mod\<close> on \<open>int\<close>; a zero divisor raises.
\<close>

definition slice_intersection :: "slice \<Rightarrow> slice \<Rightarrow> int \<Rightarrow> error + slice option" where
  "slice_intersection a b len =
    ebind (slice_indices a len) (\<lambda>(a_start, a_stop, a_step).
    ebind (slice_indices b len) (\<lambda>(b_start, b_stop, b_step).
      let (g, x) = extgcd a_step b_step in
      if g = 0 then Inl ZeroDivisionError
      else if (b_start - a_start) mod g \<noteq> 0 then Inr None
      else
        let c_step = a_step div g * b_step in
        if a_step = 0 \<or> c_step div a_step = 0 then Inl ZeroDivisionError
        else
          let a_skip = x * ((b_start - a_start) div g) mod (c_step div a_step);
              c_start = a_start + a_step * a_skip
          in if c_start < b_start \<and> c_step = 0 then Inl ZeroDivisionError
          else
            let c_start' = (if c_start < b_start
                            then c_start + ((b_start - c_start - 1) div c_step + 1) * c_step
                            else c_start);
                c_stop = min a_stop b_stop
            in if c_start' < c_stop
               then Inr (Some (Slice (Some c_start') (Some c_stop) (Some c_step)))
               else Inr None))"

text \<open>\<^verbatim>\<open>_index_for_subslice\<close>.\<close>

definition index_for_subslice :: "slice \<Rightarrow> slice \<Rightarrow> int \<Rightarrow> error + slice" where
  "index_for_subslice a sub len =
    ebind (slice_indices a len) (\<lambda>(a_start, a_stop, a_step).
    ebind (slice_indices sub len) (\<lambda>(sub_start, sub_stop, sub_step).
      if a_step = 0 then Inl ZeroDivisionError
      else
        let c_start = (sub_start - a_start) div a_step;
            c_stop = (sub_stop - a_start - 1) div a_step + 1;
            c_step = sub_step div a_step
        in Inr (Slice (Some c_start) (Some c_stop) (Some c_step))))"

text \<open>
  \<^verbatim>\<open>_index_intersection\<close>: the \<^verbatim>\<open>assert\<close> on the three lengths, then the per-axis
  intersections over \<^verbatim>\<open>zip(a_idx, b_idx, shape)\<close>; \<^verbatim>\<open>None\<close> if one of them is.
\<close>

fun zip3 :: "'a list \<Rightarrow> 'b list \<Rightarrow> 'c list \<Rightarrow> ('a \<times> 'b \<times> 'c) list" where
  "zip3 (x # xs) (y # ys) (z # zs) = (x, y, z) # zip3 xs ys zs"
| "zip3 _ _ _ = []"

definition has_no_none :: "'a option list \<Rightarrow> bool" where
  "has_no_none xs = (None \<notin> set xs)"

definition index_intersection ::
  "slice list \<Rightarrow> slice list \<Rightarrow> int list \<Rightarrow> error + slice list option" where
  "index_intersection a_idx b_idx shape =
    (let ndim = length shape in
     if \<not> (length a_idx = length b_idx \<and> length b_idx = ndim) then Inl AssertionError
     else
       ebind (emap (\<lambda>(a, b, len). slice_intersection a b len) (zip3 a_idx b_idx shape))
         (\<lambda>result. if has_no_none result then Inr (Some (map the result)) else Inr None))"

text \<open>\<^verbatim>\<open>_index_for_subindex\<close>.\<close>

definition index_for_subindex ::
  "slice list \<Rightarrow> slice list \<Rightarrow> int list \<Rightarrow> error + slice list" where
  "index_for_subindex a_idx sub_idx shape =
    (let ndim = length shape in
     if \<not> (length a_idx = length sub_idx \<and> length sub_idx = ndim) then Inl AssertionError
     else emap (\<lambda>(a, sub, len). index_for_subslice a sub len) (zip3 a_idx sub_idx shape))"

text \<open>
  \<^verbatim>\<open>_shape_after_indexing\<close>: the loop over \<^verbatim>\<open>range(len(idx))\<close>; \<^verbatim>\<open>shape[i]\<close> raises
  when \<open>idx\<close> is longer than the shape.
\<close>

fun shape_after_indexing :: "int list \<Rightarrow> slice list \<Rightarrow> error + int list" where
  "shape_after_indexing outer_shape [] = Inr outer_shape"
| "shape_after_indexing [] (s # idx) = Inl IndexError"
| "shape_after_indexing (d # outer_shape) (s # idx) =
    ebind (slice_indices s d) (\<lambda>(start, stop, step).
    ebind (shape_after_indexing outer_shape idx) (\<lambda>rest.
      Inr (((stop - start - 1) div step + 1) # rest)))"

section \<open>Chunk-index validation\<close>

text \<open>
  What a caller may write for one axis of a chunk index: an \<^verbatim>\<open>int\<close>, a \<^verbatim>\<open>slice\<close>, or
  anything else.  A chunk index is a tuple of these, or a single one.
\<close>

datatype idx_elem = IdxInt int | IdxSlice slice | IdxOther

datatype chunk_idx = IdxTuple "idx_elem list" | IdxSingle idx_elem

text \<open>The body of the loop \<^verbatim>\<open>for i in range(ndim)\<close> of \<^verbatim>\<open>_convert_chunk_idx_to_slices\<close>.\<close>

definition convert_axis :: "int \<Rightarrow> idx_elem \<Rightarrow> error + slice" where
  "convert_axis d e =
    (case e of
       IdxInt n \<Rightarrow>
         if n \<ge> d then Inl IndexError
         else Inr (Slice (Some n) (Some (n + 1)) None)
     | IdxSlice s \<Rightarrow>
         ebind (slice_indices s d) (\<lambda>(start, stop, step).
           if step = 0 then Inl ValueError
           else if step < 0 then Inl ValueError
           else if start = stop then Inl ValueError
           else Inr (Slice (Some start) (Some stop) (Some step)))
     | IdxOther \<Rightarrow> Inl ValueError)"

definition convert_chunk_idx_to_slices :: "int list \<Rightarrow> chunk_idx \<Rightarrow> error + slice list" where
  "convert_chunk_idx_to_slices shape idx =
    (let idx = (case idx of IdxTuple es \<Rightarrow> es | IdxSingle e \<Rightarrow> [e]);
         ndim = length shape
     in if length idx > ndim then Inl IndexError
        else
          let idx = idx @ replicate (ndim - length idx) (IdxSlice (Slice None None None))
          in emap (\<lambda>(d, e). convert_axis d e) (zip shape idx))"

text \<open>
  The docstring of \<^verbatim>\<open>_convert_chunk_idx_to_slices\<close>: the result has ``all nonnegative
  indices'', and the function is to ``raise if empty or invalid''.  The two predicates
  below say this of a result.
\<close>

definition nonnegative_slice :: "slice \<Rightarrow> bool" where
  "nonnegative_slice s =
    (case s of Slice start stop step \<Rightarrow>
       (case start of None \<Rightarrow> True | Some v \<Rightarrow> 0 \<le> v)
     \<and> (case stop of None \<Rightarrow> True | Some v \<Rightarrow> 0 \<le> v))"

definition selects_nothing :: "slice \<Rightarrow> int \<Rightarrow> bool" where
  "selects_nothing s len =
    (case slice_indices s len of
       Inl e \<Rightarrow> True
     | Inr (start, stop, step) \<Rightarrow> (if step > 0 then stop \<le> start else start \<le> stop))"

section \<open>N-dimensional arrays\<close>

text \<open>
  A NumPy or CuPy array: its shape and the value at every index tuple.  Only the cells
  whose index lies within the shape belong to the array; \<open>array_equal\<close> compares the
  shapes and those cells.  Indexing by a tuple of slices follows NumPy: a tuple shorter
  than the number of axes is completed with full slices, a longer one raises, each slice
  is normalized by \<^verbatim>\<open>slice.indices\<close> against its axis.
\<close>

record 'a ndarray =
  nd_shape :: "int list"
  nd_data :: "int list \<Rightarrow> 'a"

definition expand_index :: "int list \<Rightarrow> slice list \<Rightarrow> error + (int \<times> int \<times> int) list" where
  "expand_index shape idx =
    (if length idx > length shape then Inl IndexError
     else emap (\<lambda>(s, d). slice_indices s d)
            (zip (idx @ replicate (length shape - length idx) (Slice None None None)) shape))"

text \<open>\<^verbatim>\<open>len(range(start, stop, step))\<close>.\<close>

definition range_len :: "int \<times> int \<times> int \<Rightarrow> int" where
  "range_len r =
    (case r of (start, stop, step) \<Rightarrow>
       if step > 0 then (if start < stop then (stop - start - 1) div step + 1 else 0)
       else if step < 0 then (if stop < start then (start - stop - 1) div (- step) + 1 else 0)
       else 0)"

definition in_region :: "(int \<times> int \<times> int) list \<Rightarrow> int list \<Rightarrow> bool" where
  "in_region rs p = list_all2 in_range rs p"

definition local_index :: "(int \<times> int \<times> int) list \<Rightarrow> int list \<Rightarrow> int list" where
  "local_index rs p = map2 (\<lambda>(start, stop, step) i. (i - start) div step) rs p"

definition global_index :: "(int \<times> int \<times> int) list \<Rightarrow> int list \<Rightarrow> int list" where
  "global_index rs j = map2 (\<lambda>(start, stop, step) i. start + i * step) rs j"

text \<open>\<^verbatim>\<open>a[idx]\<close> for a tuple of slices.\<close>

definition getitem :: "'a ndarray \<Rightarrow> slice list \<Rightarrow> error + 'a ndarray" where
  "getitem a idx =
    ebind (expand_index (nd_shape a) idx) (\<lambda>rs.
      Inr \<lparr>nd_shape = map range_len rs, nd_data = (\<lambda>j. nd_data a (global_index rs j))\<rparr>)"

text \<open>
  Broadcasting a value of shape \<open>vsh\<close> into a target of shape \<open>tsh\<close>: the shapes are
  aligned at their last axes, and an axis of the value must have the target's size or
  size 1.  \<open>broadcast_index\<close> is the index of the value read for a target index.
\<close>

definition broadcastable :: "int list \<Rightarrow> int list \<Rightarrow> bool" where
  "broadcastable vsh tsh =
    (length vsh \<le> length tsh
     \<and> list_all (\<lambda>(dv, dt). dv = dt \<or> dv = 1) (zip (rev vsh) (rev tsh)))"

definition broadcast_index :: "int list \<Rightarrow> int list \<Rightarrow> int list \<Rightarrow> int list" where
  "broadcast_index vsh tsh j =
    map2 (\<lambda>dv i. if dv = 1 then 0 else i) vsh (drop (length tsh - length vsh) j)"

text \<open>
  Assignment strips leading axes of size 1 from a value that has more axes than the
  target; a ufunc writing to \<^verbatim>\<open>out\<close> does not.
\<close>

function strip_leading_ones :: "nat \<Rightarrow> 'a ndarray \<Rightarrow> 'a ndarray" where
  "strip_leading_ones n v =
    (case nd_shape v of
       d # ds \<Rightarrow>
         if length (nd_shape v) > n \<and> d = 1
         then strip_leading_ones n \<lparr>nd_shape = ds, nd_data = (\<lambda>j. nd_data v (0 # j))\<rparr>
         else v
     | [] \<Rightarrow> v)"
  by pat_completeness auto
termination
  by (relation "measure (\<lambda>(n, v). length (nd_shape v))") auto

declare strip_leading_ones.simps [simp del]

text \<open>
  The common core of \<^verbatim>\<open>a[idx] = v\<close> and \<^verbatim>\<open>ufunc(a[idx], v, a[idx])\<close>: every cell of
  the region \<open>idx\<close> of \<open>a\<close> becomes \<open>f old new\<close>, every other cell stays.
\<close>

definition assign_region ::
  "('a \<Rightarrow> 'a \<Rightarrow> 'a) \<Rightarrow> 'a ndarray \<Rightarrow> slice list \<Rightarrow> 'a ndarray \<Rightarrow> error + 'a ndarray" where
  "assign_region f a idx v =
    ebind (expand_index (nd_shape a) idx) (\<lambda>rs.
      let tsh = map range_len rs in
      if \<not> broadcastable (nd_shape v) tsh then Inl ValueError
      else Inr (a\<lparr>nd_data := (\<lambda>p.
             if in_region rs p
             then f (nd_data a p) (nd_data v (broadcast_index (nd_shape v) tsh (local_index rs p)))
             else nd_data a p)\<rparr>))"

definition setitem :: "'a ndarray \<Rightarrow> slice list \<Rightarrow> 'a ndarray \<Rightarrow> error + 'a ndarray" where
  "setitem a idx v =
    ebind (expand_index (nd_shape a) idx) (\<lambda>rs.
      assign_region (\<lambda>old new. new) a idx (strip_leading_ones (length rs) v))"

definition ufunc_out ::
  "('a \<Rightarrow> 'a \<Rightarrow> 'a) \<Rightarrow> 'a ndarray \<Rightarrow> slice list \<Rightarrow> 'a ndarray \<Rightarrow> error + 'a ndarray" where
  "ufunc_out f a idx v = assign_region f a idx v"

text \<open>A scalar as a value to assign: an array without axes.\<close>

definition scalar :: "'a \<Rightarrow> 'a ndarray" where
  "scalar c = \<lparr>nd_shape = [], nd_data = (\<lambda>j. c)\<rparr>"

text \<open>
  \<^verbatim>\<open>numpy.empty\<close> leaves the cells as they are in memory: \<open>uninit\<close> is that content.
\<close>

definition numpy_empty :: "(int list \<Rightarrow> 'a) \<Rightarrow> int list \<Rightarrow> 'a ndarray" where
  "numpy_empty uninit shape = \<lparr>nd_shape = shape, nd_data = uninit\<rparr>"

definition numpy_full :: "int list \<Rightarrow> 'a \<Rightarrow> 'a ndarray" where
  "numpy_full shape c = \<lparr>nd_shape = shape, nd_data = (\<lambda>j. c)\<rparr>"

definition atleast_1d :: "'a ndarray \<Rightarrow> 'a ndarray" where
  "atleast_1d a =
    (if nd_shape a = [] then \<lparr>nd_shape = [1], nd_data = (\<lambda>j. nd_data a [])\<rparr> else a)"

text \<open>All index tuples of a shape, as \<^verbatim>\<open>numpy.ndindex\<close> lists them.\<close>

fun ndindex :: "int list \<Rightarrow> int list list" where
  "ndindex [] = [[]]"
| "ndindex (d # ds) = concat (map (\<lambda>i. map ((#) i) (ndindex ds)) [0..d - 1])"

definition array_equal :: "'a ndarray \<Rightarrow> 'a ndarray \<Rightarrow> bool" where
  "array_equal a b =
    (nd_shape a = nd_shape b
     \<and> list_all (\<lambda>j. nd_data a j = nd_data b j) (ndindex (nd_shape a)))"

section \<open>Modes\<close>

text \<open>
  The element type \<open>'a\<close> of the arrays stands for their dtype.  What the code takes from
  the dtype and from the ufuncs of the modes is a parameter: the values
  \<^verbatim>\<open>dtype.type(0)\<close>, \<^verbatim>\<open>dtype.type(1)\<close>, \<^verbatim>\<open>_min_value_of(dtype)\<close>,
  \<^verbatim>\<open>_max_value_of(dtype)\<close>, the four binary operations, and whether the table
  \<^verbatim>\<open>_nccl_dtypes\<close> (not part of these sources) knows the dtype.
\<close>

record 'a dtype =
  dt_zero :: 'a
  dt_one :: 'a
  dt_min_value :: 'a
  dt_max_value :: 'a
  dt_add :: "'a \<Rightarrow> 'a \<Rightarrow> 'a"
  dt_multiply :: "'a \<Rightarrow> 'a \<Rightarrow> 'a"
  dt_minimum :: "'a \<Rightarrow> 'a \<Rightarrow> 'a"
  dt_maximum :: "'a \<Rightarrow> 'a \<Rightarrow> 'a"
  dt_nccl_known :: bool

text \<open>
  The four \<^verbatim>\<open>_OpMode\<close> objects of the table \<^verbatim>\<open>_MODES\<close>; a mode is one of them or
  \<^verbatim>\<open>None\<close>, the replica mode.
\<close>

datatype op_mode = MinMode | MaxMode | SumMode | ProdMode

fun func :: "'a dtype \<Rightarrow> op_mode \<Rightarrow> 'a \<Rightarrow> 'a \<Rightarrow> 'a" where
  "func dt MinMode = dt_minimum dt"
| "func dt MaxMode = dt_maximum dt"
| "func dt SumMode = dt_add dt"
| "func dt ProdMode = dt_multiply dt"

fun idempotent :: "op_mode \<Rightarrow> bool" where
  "idempotent MinMode = True"
| "idempotent MaxMode = True"
| "idempotent SumMode = False"
| "idempotent ProdMode = False"

fun identity_of :: "'a dtype \<Rightarrow> op_mode \<Rightarrow> 'a" where
  "identity_of dt MinMode = dt_max_value dt"
| "identity_of dt MaxMode = dt_min_value dt"
| "identity_of dt SumMode = dt_zero dt"
| "identity_of dt ProdMode = dt_one dt"

definition MODES :: "string \<Rightarrow> op_mode option option" where
  "MODES name =
    (if name = ''replica'' then Some None
     else if name = ''min'' then Some (Some MinMode)
     else if name = ''max'' then Some (Some MaxMode)
     else if name = ''sum'' then Some (Some SumMode)
     else if name = ''prod'' then Some (Some ProdMode)
     else None)"

section \<open>Chunks\<close>

text \<open>
  A \<^verbatim>\<open>_Chunk\<close>: its buffer, the id of the device the buffer lives on
  (\<^verbatim>\<open>chunk.data.device.id\<close>), its index region and its pending updates.  Streams and
  events only order the operations on the buffers; the model runs the operations in
  program order and holds every buffer by value, the payload of a pending update
  included.
\<close>

record 'a chunk =
  data :: "'a ndarray"
  device :: int
  index :: "slice list"
  updates :: "('a ndarray \<times> slice list) list"

definition chunk_copy :: "'a chunk \<Rightarrow> 'a chunk" where
  "chunk_copy c = \<lparr>data = data c, device = device c, index = index c, updates = updates c\<rparr>"

text \<open>\<^verbatim>\<open>_apply_updates\<close>: the loop over \<^verbatim>\<open>chunk.updates\<close>, then \<^verbatim>\<open>clear()\<close>.\<close>

fun apply_update_list ::
  "'a dtype \<Rightarrow> op_mode option \<Rightarrow> 'a ndarray \<Rightarrow> ('a ndarray \<times> slice list) list
    \<Rightarrow> error + 'a ndarray" where
  "apply_update_list dt mode d [] = Inr d"
| "apply_update_list dt mode d ((new_data, idx) # us) =
    ebind (case mode of
             Some m \<Rightarrow> ufunc_out (func dt m) d idx new_data
           | None \<Rightarrow> setitem d idx new_data)
      (\<lambda>d'. apply_update_list dt mode d' us)"

definition apply_updates :: "'a dtype \<Rightarrow> 'a chunk \<Rightarrow> op_mode option \<Rightarrow> error + 'a chunk" where
  "apply_updates dt chunk mode =
    ebind (apply_update_list dt mode (data chunk) (updates chunk)) (\<lambda>d.
      Inr (chunk\<lparr>data := d, updates := []\<rparr>))"

section \<open>Distributed arrays\<close>

text \<open>
  A \<^verbatim>\<open>_DistributedArray\<close>: its shape, the dictionary \<^verbatim>\<open>_chunks_map\<close> as the list of its
  items in insertion order, its mode, and the devices that have a communicator in
  \<^verbatim>\<open>_comms\<close>.
\<close>

record 'a dist =
  d_shape :: "int list"
  d_chunks_map :: "(int \<times> 'a chunk list) list"
  d_mode :: "op_mode option"
  d_comms :: "int list"

text \<open>
  \<^verbatim>\<open>_DistributedArray.__new__\<close>: the given communicators if the dictionary is neither
  \<^verbatim>\<open>None\<close> nor empty, else new ones for the devices of the chunks if NCCL is available.
\<close>

definition new_DistributedArray ::
  "bool \<Rightarrow> int list \<Rightarrow> (int \<times> 'a chunk list) list \<Rightarrow> op_mode option \<Rightarrow> int list option
    \<Rightarrow> error + 'a dist" where
  "new_DistributedArray nccl_available shape chunks_map mode comms =
    (case comms of
       Some (c # cs) \<Rightarrow>
         Inr \<lparr>d_shape = shape, d_chunks_map = chunks_map, d_mode = mode, d_comms = c # cs\<rparr>
     | _ \<Rightarrow>
         if nccl_available
         then Inr \<lparr>d_shape = shape, d_chunks_map = chunks_map, d_mode = mode,
                   d_comms = map fst chunks_map\<rparr>
         else Inl RuntimeError)"

definition index_map_of :: "'a dist \<Rightarrow> (int \<times> slice list list) list" where
  "index_map_of d = map (\<lambda>(dev, chunks). (dev, map index chunks)) (d_chunks_map d)"

text \<open>
  \<^verbatim>\<open>_transfer_async\<close>: the same buffer when source and destination device are the same,
  else a copy sent through the communicators of the two devices.
\<close>

definition transfer_async ::
  "'a dtype \<Rightarrow> int list \<Rightarrow> int \<Rightarrow> 'a ndarray \<Rightarrow> int \<Rightarrow> error + 'a ndarray" where
  "transfer_async dt comms src_dev src_data dst_dev =
    (if src_dev = dst_dev then Inr src_data
     else if \<not> dt_nccl_known dt then Inl TypeError
     else if src_dev \<notin> set comms then Inl KeyError
     else if dst_dev \<notin> set comms then Inl KeyError
     else Inr src_data)"

text \<open>\<^verbatim>\<open>_apply_and_update_chunks\<close>; the result is the pair of the two chunks afterwards.\<close>

definition apply_and_update_chunks ::
  "'a dtype \<Rightarrow> int list \<Rightarrow> op_mode \<Rightarrow> int list \<Rightarrow> 'a chunk \<Rightarrow> 'a chunk
    \<Rightarrow> error + ('a chunk \<times> 'a chunk)" where
  "apply_and_update_chunks dt comms op_mode shape src_chunk dst_chunk =
    ebind (index_intersection (index src_chunk) (index dst_chunk) shape) (\<lambda>inter.
      case inter of
        None \<Rightarrow> Inr (src_chunk, dst_chunk)
      | Some intersection \<Rightarrow>
          ebind (index_for_subindex (index src_chunk) intersection shape) (\<lambda>src_new_idx.
          ebind (index_for_subindex (index dst_chunk) intersection shape) (\<lambda>dst_new_idx.
          ebind (getitem (data src_chunk) src_new_idx) (\<lambda>data_to_transfer.
          ebind (transfer_async dt comms (device src_chunk) data_to_transfer (device dst_chunk))
            (\<lambda>update.
              let dst_chunk' = dst_chunk\<lparr>updates := updates dst_chunk @ [(update, dst_new_idx)]\<rparr>
              in if \<not> idempotent op_mode
                 then ebind (setitem (data src_chunk) src_new_idx
                               (scalar (identity_of dt op_mode)))
                        (\<lambda>d. Inr (src_chunk\<lparr>data := d\<rparr>, dst_chunk'))
                 else Inr (src_chunk, dst_chunk'))))))"

text \<open>\<^verbatim>\<open>_copy_on_intersection\<close>; the result is the destination chunk afterwards.\<close>

definition copy_on_intersection ::
  "'a dtype \<Rightarrow> int list \<Rightarrow> int list \<Rightarrow> 'a chunk \<Rightarrow> 'a chunk \<Rightarrow> error + 'a chunk" where
  "copy_on_intersection dt comms shape src_chunk dst_chunk =
    (if updates src_chunk \<noteq> [] then Inl AssertionError
     else
       ebind (index_intersection (index src_chunk) (index dst_chunk) shape) (\<lambda>inter.
         case inter of
           None \<Rightarrow> Inr dst_chunk
         | Some intersection \<Rightarrow>
             ebind (index_for_subindex (index src_chunk) intersection shape) (\<lambda>src_new_idx.
             ebind (index_for_subindex (index dst_chunk) intersection shape) (\<lambda>dst_new_idx.
             ebind (getitem (data src_chunk) src_new_idx) (\<lambda>src_partial_chunk.
             ebind (transfer_async dt comms (device src_chunk) src_partial_chunk
                      (device dst_chunk)) (\<lambda>update.
               Inr (dst_chunk\<lparr>updates := updates dst_chunk @ [(update, dst_new_idx)]\<rparr>)))))))"

text \<open>\<^verbatim>\<open>_set_identity_on_intersection\<close> and \<^verbatim>\<open>_set_identity_on_ignored_entries\<close>.\<close>

definition set_identity_on_intersection ::
  "int list \<Rightarrow> 'a \<Rightarrow> 'a chunk \<Rightarrow> slice list \<Rightarrow> error + 'a chunk" where
  "set_identity_on_intersection shape identity a_chunk b_idx =
    ebind (index_intersection (index a_chunk) b_idx shape) (\<lambda>inter.
      case inter of
        None \<Rightarrow> Inr a_chunk
      | Some intersection \<Rightarrow>
          ebind (index_for_subindex (index a_chunk) intersection shape) (\<lambda>a_new_idx.
          ebind (setitem (data a_chunk) a_new_idx (scalar identity)) (\<lambda>d.
            Inr (a_chunk\<lparr>data := d\<rparr>))))"

fun set_identity_list :: "'a \<Rightarrow> 'a ndarray \<Rightarrow> slice list list \<Rightarrow> error + 'a ndarray" where
  "set_identity_list identity d [] = Inr d"
| "set_identity_list identity d (idx # idxs) =
    ebind (setitem d idx (scalar identity)) (\<lambda>d'. set_identity_list identity d' idxs)"

definition set_identity_on_ignored_entries :: "'a \<Rightarrow> 'a chunk \<Rightarrow> error + 'a chunk" where
  "set_identity_on_ignored_entries identity chunk =
    ebind (set_identity_list identity (data chunk) (map snd (updates chunk))) (\<lambda>d.
      Inr (chunk\<lparr>data := d\<rparr>))"

text \<open>
  The chunks of a chunk map as one list (\<^verbatim>\<open>chunks_list\<close>), and the chunk map with its
  chunks replaced by those of such a list: the code mutates the chunk objects of the
  list, which are the chunk objects of the map.
\<close>

definition chunks_list_of :: "(int \<times> 'a chunk list) list \<Rightarrow> 'a chunk list" where
  "chunks_list_of chunk_map = concat (map snd chunk_map)"

fun with_chunks_list ::
  "(int \<times> 'a chunk list) list \<Rightarrow> 'a chunk list \<Rightarrow> (int \<times> 'a chunk list) list" where
  "with_chunks_list [] cl = []"
| "with_chunks_list ((dev, chunks) # rest) cl =
    (dev, take (length chunks) cl) # with_chunks_list rest (drop (length chunks) cl)"

text \<open>
  \<^verbatim>\<open>_all_reduce_intersections\<close>.  The forward pass: for \<open>i\<close> ascending, drain chunk \<open>i\<close>
  in the op mode, then apply it onto every later chunk \<open>j\<close>.  The backward pass: for \<open>j\<close>
  descending, drain chunk \<open>j\<close> in the replica mode, then copy it onto every earlier
  chunk \<open>i\<close>.
\<close>

fun forward_inner ::
  "'a dtype \<Rightarrow> int list \<Rightarrow> op_mode \<Rightarrow> int list \<Rightarrow> nat \<Rightarrow> nat list \<Rightarrow> 'a chunk list
    \<Rightarrow> error + 'a chunk list" where
  "forward_inner dt comms op_mode shape i [] cl = Inr cl"
| "forward_inner dt comms op_mode shape i (j # js) cl =
    ebind (apply_and_update_chunks dt comms op_mode shape (cl ! i) (cl ! j)) (\<lambda>(src, dst).
      forward_inner dt comms op_mode shape i js (cl[i := src, j := dst]))"

fun forward_pass ::
  "'a dtype \<Rightarrow> int list \<Rightarrow> op_mode \<Rightarrow> int list \<Rightarrow> nat list \<Rightarrow> 'a chunk list
    \<Rightarrow> error + 'a chunk list" where
  "forward_pass dt comms op_mode shape [] cl = Inr cl"
| "forward_pass dt comms op_mode shape (i # is) cl =
    ebind (apply_updates dt (cl ! i) (Some op_mode)) (\<lambda>src.
    ebind (forward_inner dt comms op_mode shape i [i + 1..<length cl] (cl[i := src])) (\<lambda>cl'.
      forward_pass dt comms op_mode shape is cl'))"

fun backward_inner ::
  "'a dtype \<Rightarrow> int list \<Rightarrow> int list \<Rightarrow> nat \<Rightarrow> nat list \<Rightarrow> 'a chunk list
    \<Rightarrow> error + 'a chunk list" where
  "backward_inner dt comms shape j [] cl = Inr cl"
| "backward_inner dt comms shape j (i # is) cl =
    ebind (copy_on_intersection dt comms shape (cl ! j) (cl ! i)) (\<lambda>dst.
      backward_inner dt comms shape j is (cl[i := dst]))"

fun backward_pass ::
  "'a dtype \<Rightarrow> int list \<Rightarrow> int list \<Rightarrow> nat list \<Rightarrow> 'a chunk list
    \<Rightarrow> error + 'a chunk list" where
  "backward_pass dt comms shape [] cl = Inr cl"
| "backward_pass dt comms shape (j # js) cl =
    ebind (apply_updates dt (cl ! j) None) (\<lambda>src.
    ebind (backward_inner dt comms shape j [0..<j] (cl[j := src])) (\<lambda>cl'.
      backward_pass dt comms shape js cl'))"

definition all_reduce_intersections ::
  "'a dtype \<Rightarrow> int list \<Rightarrow> op_mode \<Rightarrow> int list \<Rightarrow> (int \<times> 'a chunk list) list
    \<Rightarrow> error + (int \<times> 'a chunk list) list" where
  "all_reduce_intersections dt comms op_mode shape chunk_map =
    (let chunks_list = chunks_list_of chunk_map in
     ebind (forward_pass dt comms op_mode shape [0..<length chunks_list] chunks_list) (\<lambda>cl.
     ebind (backward_pass dt comms shape (rev [0..<length cl]) cl) (\<lambda>cl'.
       Inr (with_chunks_list chunk_map cl'))))"

text \<open>\<^verbatim>\<open>_copy_chunks_map\<close>, \<^verbatim>\<open>_replica_mode_chunks_map\<close>, \<^verbatim>\<open>_op_mode_chunks_map\<close>.\<close>

definition copy_chunks_map :: "'a dist \<Rightarrow> (int \<times> 'a chunk list) list" where
  "copy_chunks_map d = map (\<lambda>(dev, chunks). (dev, map chunk_copy chunks)) (d_chunks_map d)"

definition replica_mode_chunks_map ::
  "'a dtype \<Rightarrow> 'a dist \<Rightarrow> error + (int \<times> 'a chunk list) list" where
  "replica_mode_chunks_map dt d =
    (let chunks_map = copy_chunks_map d in
     case d_mode d of
       Some m \<Rightarrow> all_reduce_intersections dt (d_comms d) m (d_shape d) chunks_map
     | None \<Rightarrow> Inr chunks_map)"

fun identity_inner ::
  "int list \<Rightarrow> 'a \<Rightarrow> nat \<Rightarrow> nat list \<Rightarrow> 'a chunk list \<Rightarrow> error + 'a chunk list" where
  "identity_inner shape identity i [] cl = Inr cl"
| "identity_inner shape identity i (j # js) cl =
    ebind (set_identity_on_intersection shape identity (cl ! i) (index (cl ! j))) (\<lambda>a_chunk.
      identity_inner shape identity i js (cl[i := a_chunk]))"

fun identity_pass ::
  "int list \<Rightarrow> 'a \<Rightarrow> nat list \<Rightarrow> 'a chunk list \<Rightarrow> error + 'a chunk list" where
  "identity_pass shape identity [] cl = Inr cl"
| "identity_pass shape identity (i # is) cl =
    ebind (identity_inner shape identity i [i + 1..<length cl] cl) (\<lambda>cl'.
      identity_pass shape identity is cl')"

definition op_mode_chunks_map ::
  "'a dtype \<Rightarrow> 'a dist \<Rightarrow> op_mode \<Rightarrow> error + (int \<times> 'a chunk list) list" where
  "op_mode_chunks_map dt d op_mode =
    (if d_mode d = Some op_mode then Inr (copy_chunks_map d)
     else
       ebind (replica_mode_chunks_map dt d) (\<lambda>chunks_map.
       ebind (emap (\<lambda>chunk. apply_updates dt chunk None) (chunks_list_of chunks_map)) (\<lambda>cl.
       ebind (identity_pass (d_shape d) (identity_of dt op_mode) [0..<length cl] cl) (\<lambda>cl'.
         Inr (with_chunks_list chunks_map cl')))))"

text \<open>\<^verbatim>\<open>to_replica_mode\<close> and \<^verbatim>\<open>change_mode\<close>.\<close>

definition to_replica_mode :: "bool \<Rightarrow> 'a dtype \<Rightarrow> 'a dist \<Rightarrow> error + 'a dist" where
  "to_replica_mode nccl_available dt d =
    (if d_mode d = None then Inr d
     else
       ebind (replica_mode_chunks_map dt d) (\<lambda>chunks_map.
         new_DistributedArray nccl_available (d_shape d) chunks_map None (Some (d_comms d))))"

definition change_mode :: "bool \<Rightarrow> 'a dtype \<Rightarrow> 'a dist \<Rightarrow> string \<Rightarrow> error + 'a dist" where
  "change_mode nccl_available dt d mode =
    (case MODES mode of
       None \<Rightarrow> Inl RuntimeError
     | Some mode_obj \<Rightarrow>
         if mode_obj = d_mode d then Inr d
         else
           ebind (case mode_obj of
                    Some m \<Rightarrow> op_mode_chunks_map dt d m
                  | None \<Rightarrow> replica_mode_chunks_map dt d) (\<lambda>chunks_map.
             new_DistributedArray nccl_available (d_shape d) chunks_map mode_obj
               (Some (d_comms d))))"

text \<open>
  \<^verbatim>\<open>asnumpy\<close>: drain every chunk in the array's mode, then fold the chunks into a host
  array of the array's shape, made at least one-dimensional.
\<close>

fun fold_chunks ::
  "'a dtype \<Rightarrow> op_mode option \<Rightarrow> 'a ndarray \<Rightarrow> 'a chunk list \<Rightarrow> error + 'a ndarray" where
  "fold_chunks dt mode np_array [] = Inr np_array"
| "fold_chunks dt mode np_array (chunk # chunks) =
    ebind (case mode of
             Some m \<Rightarrow> ufunc_out (func dt m) np_array (index chunk) (data chunk)
           | None \<Rightarrow> setitem np_array (index chunk) (data chunk))
      (\<lambda>np_array'. fold_chunks dt mode np_array' chunks)"

definition asnumpy :: "(int list \<Rightarrow> 'a) \<Rightarrow> 'a dtype \<Rightarrow> 'a dist \<Rightarrow> error + 'a ndarray" where
  "asnumpy uninit dt d =
    ebind (emap (\<lambda>chunk. apply_updates dt chunk (d_mode d)) (chunks_list_of (d_chunks_map d)))
      (\<lambda>cl.
        let np_array = (case d_mode d of
                          Some m \<Rightarrow> numpy_full (d_shape d) (identity_of dt m)
                        | None \<Rightarrow> numpy_empty uninit (d_shape d));
            np_array = atleast_1d np_array
        in fold_chunks dt (d_mode d) np_array cl)"

section \<open>Construction from a host array\<close>

text \<open>
  The arrays of the caller are objects in memory: the memory is the list of them, a
  reference is a position in it.  The argument \<^verbatim>\<open>array\<close> of \<^verbatim>\<open>distributed_array\<close> is a
  reference to a NumPy or CuPy array, or any other array-like value, which
  \<^verbatim>\<open>numpy.array\<close> turns into a new array with its contents.  A value of the dictionary
  \<^verbatim>\<open>index_map\<close> is a list of chunk indices or a single one.
\<close>

datatype 'a array_arg = NdArray nat | ArrayLike "'a ndarray"

datatype device_idxs = IdxList "chunk_idx list" | IdxOne chunk_idx

text \<open>
  The first loop of \<^verbatim>\<open>distributed_array\<close>: per device, the indices converted and then
  sorted by the key \<^verbatim>\<open>[s.indices(l) for s, l in zip(slices, array.shape)]\<close>.
\<close>

definition sort_idxs :: "int list \<Rightarrow> slice list list \<Rightarrow> error + slice list list" where
  "sort_idxs shape idxs =
    ebind (emap (\<lambda>slices. emap (\<lambda>(s, l). slice_indices s l) (zip slices shape)) idxs)
      (\<lambda>keys. Inr (map snd (sort_key fst (zip keys idxs))))"

definition convert_device_idxs :: "int list \<Rightarrow> device_idxs \<Rightarrow> error + slice list list" where
  "convert_device_idxs shape idxs =
    (let idxs = (case idxs of IdxList l \<Rightarrow> l | IdxOne i \<Rightarrow> [i]) in
     ebind (emap (convert_chunk_idx_to_slices shape) idxs) (sort_idxs shape))"

definition convert_index_map ::
  "int list \<Rightarrow> (int \<times> device_idxs) list \<Rightarrow> error + (int \<times> slice list list) list" where
  "convert_index_map shape index_map =
    emap (\<lambda>(dev, idxs). ebind (convert_device_idxs shape idxs) (\<lambda>idxs'. Inr (dev, idxs')))
      index_map"

text \<open>
  The second loop: every chunk is a copy of \<^verbatim>\<open>array[idx]\<close> on its device; in a
  non-idempotent mode \<^verbatim>\<open>array[idx]\<close> is then set to the identity.  \<open>r\<close> is the reference
  held by the local variable \<^verbatim>\<open>array\<close>.  The result is the pair of what the loop
  returns or raises and the memory afterwards.
\<close>

fun shard_chunks ::
  "'a dtype \<Rightarrow> op_mode option \<Rightarrow> nat \<Rightarrow> int \<Rightarrow> slice list list \<Rightarrow> 'a ndarray list
    \<Rightarrow> (error + 'a chunk list) \<times> 'a ndarray list" where
  "shard_chunks dt mode_obj r dev [] st = (Inr [], st)"
| "shard_chunks dt mode_obj r dev (idx # idxs) st =
    (case getitem (st ! r) idx of
       Inl e \<Rightarrow> (Inl e, st)
     | Inr chunk_data \<Rightarrow>
         let chunk = \<lparr>data = chunk_data, device = dev, index = idx, updates = []\<rparr> in
         (case (case mode_obj of
                  Some m \<Rightarrow>
                    if \<not> idempotent m
                    then setitem (st ! r) idx (scalar (identity_of dt m))
                    else Inr (st ! r)
                | None \<Rightarrow> Inr (st ! r)) of
            Inl e \<Rightarrow> (Inl e, st)
          | Inr a' \<Rightarrow>
              (case shard_chunks dt mode_obj r dev idxs (st[r := a']) of
                 (Inl e, st') \<Rightarrow> (Inl e, st')
               | (Inr chunks, st') \<Rightarrow> (Inr (chunk # chunks), st'))))"

fun shard_devices ::
  "'a dtype \<Rightarrow> op_mode option \<Rightarrow> nat \<Rightarrow> (int \<times> slice list list) list \<Rightarrow> 'a ndarray list
    \<Rightarrow> (error + (int \<times> 'a chunk list) list) \<times> 'a ndarray list" where
  "shard_devices dt mode_obj r [] st = (Inr [], st)"
| "shard_devices dt mode_obj r ((dev, idxs) # rest) st =
    (case shard_chunks dt mode_obj r dev idxs st of
       (Inl e, st') \<Rightarrow> (Inl e, st')
     | (Inr chunks, st') \<Rightarrow>
         (case shard_devices dt mode_obj r rest st' of
            (Inl e, st'') \<Rightarrow> (Inl e, st'')
          | (Inr chunks_map, st'') \<Rightarrow> (Inr ((dev, chunks) # chunks_map), st'')))"

text \<open>\<^verbatim>\<open>distributed_array\<close>, in the memory \<open>st\<close>.\<close>

definition distributed_array ::
  "bool \<Rightarrow> 'a dtype \<Rightarrow> 'a ndarray list \<Rightarrow> 'a array_arg \<Rightarrow> (int \<times> device_idxs) list \<Rightarrow> string
    \<Rightarrow> int list option \<Rightarrow> (error + 'a dist) \<times> 'a ndarray list" where
  "distributed_array nccl_available dt st array index_map mode comms =
    (case MODES mode of
       None \<Rightarrow> (Inl RuntimeError, st)
     | Some mode_obj \<Rightarrow>
         let (r, st1) =
               (case array of
                  ArrayLike v \<Rightarrow> (length st, st @ [v])
                | NdArray r \<Rightarrow>
                    if mode \<noteq> ''replica'' then (length st, st @ [st ! r]) else (r, st))
         in (case convert_index_map (nd_shape (st1 ! r)) index_map of
               Inl e \<Rightarrow> (Inl e, st1)
             | Inr new_index_map \<Rightarrow>
                 (case shard_devices dt mode_obj r new_index_map st1 of
                    (Inl e, st2) \<Rightarrow> (Inl e, st2)
                  | (Inr chunks_map, st2) \<Rightarrow>
                      (new_DistributedArray nccl_available (nd_shape (st2 ! r)) chunks_map
                         mode_obj comms, st2))))"

section \<open>Draining all chunks\<close>



section \<open>Well-formed inputs\<close>

text \<open>
  What the properties below assume of their inputs: the sizes of an array's axes are not
  negative; and a transfer between two devices can take place, that is, the devices are
  the same or NCCL knows the dtype and both devices have a communicator.
\<close>

definition valid_shape :: "int list \<Rightarrow> bool" where
  "valid_shape sh = list_all (\<lambda>d. 0 \<le> d) sh"


text \<open>
  An index tuple lies within a shape; a cell of an array of shape \<open>shape\<close> belongs to the
  region that the index \<open>idx\<close> selects; the regions \<open>idxs\<close> cover the shape without gaps;
  no cell belongs to two of the regions.
\<close>

definition in_bounds :: "int list \<Rightarrow> int list \<Rightarrow> bool" where
  "in_bounds shape p = list_all2 (\<lambda>i d. 0 \<le> i \<and> i < d) p shape"

definition index_contains :: "int list \<Rightarrow> slice list \<Rightarrow> int list \<Rightarrow> bool" where
  "index_contains shape idx p =
    (case expand_index shape idx of Inl e \<Rightarrow> False | Inr rs \<Rightarrow> in_region rs p)"

definition covers :: "int list \<Rightarrow> slice list list \<Rightarrow> bool" where
  "covers shape idxs =
    list_all (\<lambda>p. list_ex (\<lambda>idx. index_contains shape idx p) idxs) (ndindex shape)"

definition disjoint_regions :: "int list \<Rightarrow> slice list list \<Rightarrow> bool" where
  "disjoint_regions shape idxs =
    list_all (\<lambda>p. length (filter (\<lambda>idx. index_contains shape idx p) idxs) \<le> 1)
      (ndindex shape)"

text \<open>
  A chunk holds the cells of the array \<open>A\<close> of its region: its buffer has the shape of the
  region, and the cell of the buffer for a cell of the region has the value of \<open>A\<close> there.
\<close>

definition chunk_holds :: "'a ndarray \<Rightarrow> 'a chunk \<Rightarrow> bool" where
  "chunk_holds A c =
    (case expand_index (nd_shape A) (index c) of
       Inl e \<Rightarrow> False
     | Inr rs \<Rightarrow>
         nd_shape (data c) = map range_len rs
         \<and> (\<forall>p. in_region rs p \<longrightarrow> nd_data (data c) (local_index rs p) = nd_data A p))"

text \<open>The array that the argument \<^verbatim>\<open>array\<close> of \<^verbatim>\<open>distributed_array\<close> stands for.\<close>

definition array_value :: "'a ndarray list \<Rightarrow> 'a array_arg \<Rightarrow> 'a ndarray" where
  "array_value st array = (case array of NdArray r \<Rightarrow> st ! r | ArrayLike v \<Rightarrow> v)"

definition valid_array_arg :: "'a ndarray list \<Rightarrow> 'a array_arg \<Rightarrow> bool" where
  "valid_array_arg st array =
    (case array of NdArray r \<Rightarrow> r < length st | ArrayLike v \<Rightarrow> True)"

text \<open>
  \<^verbatim>\<open>_DistributedArray.__new__\<close> finds communicators: some are given, or NCCL is
  available.
\<close>

definition comms_available :: "bool \<Rightarrow> int list option \<Rightarrow> bool" where
  "comms_available nccl_available comms =
    (nccl_available \<or> (case comms of Some (c # cs) \<Rightarrow> True | _ \<Rightarrow> False))"

text \<open>
  A chunk index as the validation returns it: one slice per axis, none with a step that
  is zero or negative.
\<close>

definition chunk_index_ok :: "int list \<Rightarrow> slice list \<Rightarrow> bool" where
  "chunk_index_ok shape idx = (length idx = length shape \<and> list_all positive_step idx)"



section \<open>Elementwise kernels on distributed arrays\<close>

text \<open>
  An operand of a kernel call is a distributed array or a plain \<^verbatim>\<open>cupy.ndarray\<close>; it is
  passed by position or by keyword.  A kernel takes the positional and the keyword
  arrays and returns one array or raises; a kernel that returns something else than one
  array raises at \<^verbatim>\<open>chunk.dtype\<close>, so the later check of the results never fails.
\<close>

datatype arg_key = Pos nat | Kw string

datatype 'a operand = Distributed "'a dist" | Regular "'a ndarray"

type_synonym 'a kernel = "'a ndarray list \<Rightarrow> (string \<times> 'a ndarray) list \<Rightarrow> error + 'a ndarray"

definition operand_shape :: "'a operand \<Rightarrow> int list" where
  "operand_shape arg = (case arg of Distributed a \<Rightarrow> d_shape a | Regular x \<Rightarrow> nd_shape x)"

text \<open>Equality of two dictionaries given as lists of items with distinct keys.\<close>

definition dict_equal :: "('k \<times> 'v) list \<Rightarrow> ('k \<times> 'v) list \<Rightarrow> bool" where
  "dict_equal xs ys =
    (length xs = length ys \<and> list_all (\<lambda>(k, v). map_of ys k = Some v) xs)"

definition dict_get :: "('k \<times> 'v) list \<Rightarrow> 'k \<Rightarrow> error + 'v" where
  "dict_get m k = (case map_of m k of None \<Rightarrow> Inl KeyError | Some v \<Rightarrow> Inr v)"

definition list_get :: "'v list \<Rightarrow> nat \<Rightarrow> error + 'v" where
  "list_get xs i = (if i < length xs then Inr (xs ! i) else Inl IndexError)"

definition get_chunk :: "'a dist \<Rightarrow> int \<Rightarrow> nat \<Rightarrow> error + 'a chunk" where
  "get_chunk arg dev chunk_i =
    ebind (dict_get (d_chunks_map arg) dev) (\<lambda>chunks. list_get chunks chunk_i)"

text \<open>
  The two loops at the start of \<^verbatim>\<open>_execute_kernel\<close>: over \<^verbatim>\<open>enumerate(args)\<close>, where a
  distributed operand is converted by \<^verbatim>\<open>to_replica_mode\<close>, and over
  \<^verbatim>\<open>kwargs.items()\<close>, where it is appended as it is and where \<^verbatim>\<open>arg.index_map\<close> is read
  before the type of the operand is looked at.
\<close>

fun collect_args ::
  "bool \<Rightarrow> 'a dtype \<Rightarrow> 'a dist \<Rightarrow> nat \<Rightarrow> 'a operand list
    \<Rightarrow> error + ((arg_key \<times> 'a dist) list \<times> (arg_key \<times> 'a ndarray) list)" where
  "collect_args nccl_available dt self i [] = Inr ([], [])"
| "collect_args nccl_available dt self i (arg # args) =
    (if operand_shape arg \<noteq> d_shape self then Inl RuntimeError
     else
       (case arg of
          Distributed a \<Rightarrow>
            if \<not> dict_equal (index_map_of a) (index_map_of self) then Inl RuntimeError
            else
              ebind (to_replica_mode nccl_available dt a) (\<lambda>a'.
              ebind (collect_args nccl_available dt self (i + 1) args) (\<lambda>(ds, rs).
                Inr ((Pos i, a') # ds, rs)))
        | Regular x \<Rightarrow>
            ebind (collect_args nccl_available dt self (i + 1) args) (\<lambda>(ds, rs).
              Inr (ds, (Pos i, x) # rs))))"

fun collect_kwargs ::
  "'a dist \<Rightarrow> (string \<times> 'a operand) list \<Rightarrow> error + (arg_key \<times> 'a dist) list" where
  "collect_kwargs self [] = Inr []"
| "collect_kwargs self ((k, arg) # kwargs) =
    (if operand_shape arg \<noteq> d_shape self then Inl RuntimeError
     else
       (case arg of
          Regular x \<Rightarrow> Inl AttributeError
        | Distributed a \<Rightarrow>
            if \<not> dict_equal (index_map_of a) (index_map_of self) then Inl RuntimeError
            else ebind (collect_kwargs self kwargs) (\<lambda>ds. Inr ((Kw k, a) # ds))))"

text \<open>\<^verbatim>\<open>_count_chunks_on_devices\<close>.\<close>

fun count_chunks ::
  "(int \<times> nat) list \<Rightarrow> (int \<times> 'a chunk list) list \<Rightarrow> error + (int \<times> nat) list" where
  "count_chunks counts [] = Inr counts"
| "count_chunks counts ((dev, chunks) # rest) =
    (let counts' = (if map_of counts dev = None then counts @ [(dev, length chunks)]
                    else counts)
     in if map_of counts' dev \<noteq> Some (length chunks) then Inl RuntimeError
        else count_chunks counts' rest)"

fun count_chunks_on_devices ::
  "(int \<times> nat) list \<Rightarrow> (arg_key \<times> 'a dist) list \<Rightarrow> error + (int \<times> nat) list" where
  "count_chunks_on_devices counts [] = Inr counts"
| "count_chunks_on_devices counts ((k, arg) # dist_args) =
    ebind (count_chunks counts (d_chunks_map arg)) (\<lambda>counts'.
      count_chunks_on_devices counts' dist_args)"

text \<open>\<^verbatim>\<open>_prepare_args\<close>: the chunk of every distributed operand, then the check.\<close>

definition prepare_args ::
  "(arg_key \<times> 'a dist) list \<Rightarrow> (arg_key \<times> 'a ndarray) list \<Rightarrow> int \<Rightarrow> nat
    \<Rightarrow> error + (arg_key \<times> 'a ndarray) list" where
  "prepare_args dist_args regular_args dev chunk_i =
    ebind (emap (\<lambda>(i, arg). ebind (get_chunk arg dev chunk_i) (\<lambda>chunk. Inr (i, data chunk)))
             dist_args) (\<lambda>args.
      if regular_args \<noteq> [] then Inl RuntimeError else Inr args)"

text \<open>
  \<^verbatim>\<open>_prepare_updates\<close>.  The first loop stops at the second operand with pending
  updates.  With at most one such operand its updates are returned; otherwise every
  chunk of the device, of every operand, is drained in the replica mode.  The operands
  afterwards are part of the result.
\<close>

fun find_updates ::
  "int \<Rightarrow> nat \<Rightarrow> (arg_key \<times> 'a dist) list \<Rightarrow> arg_key option
    \<Rightarrow> ('a ndarray \<times> slice list) list
    \<Rightarrow> error + (bool \<times> arg_key option \<times> ('a ndarray \<times> slice list) list)" where
  "find_updates dev chunk_i [] incoming upds = Inr (True, incoming, upds)"
| "find_updates dev chunk_i ((i, arg) # rest) incoming upds =
    ebind (get_chunk arg dev chunk_i) (\<lambda>chunk.
      let updates_now = updates chunk in
      if updates_now \<noteq> []
      then (if upds \<noteq> [] then Inr (False, incoming, upds)
            else find_updates dev chunk_i rest (Some i) updates_now)
      else find_updates dev chunk_i rest incoming upds)"

definition drain_device :: "'a dtype \<Rightarrow> int \<Rightarrow> 'a dist \<Rightarrow> error + 'a dist" where
  "drain_device dt dev arg =
    ebind (dict_get (d_chunks_map arg) dev) (\<lambda>chunks.
    ebind (emap (\<lambda>chunk. apply_updates dt chunk None) chunks) (\<lambda>chunks'.
      Inr (arg\<lparr>d_chunks_map :=
             map (\<lambda>(dv, cs). if dv = dev then (dv, chunks') else (dv, cs))
               (d_chunks_map arg)\<rparr>)))"

definition prepare_updates ::
  "'a dtype \<Rightarrow> (arg_key \<times> 'a dist) list \<Rightarrow> int \<Rightarrow> nat
    \<Rightarrow> error + (arg_key option \<times> ('a ndarray \<times> slice list) list
                 \<times> (arg_key \<times> 'a dist) list)" where
  "prepare_updates dt dist_args dev chunk_i =
    ebind (find_updates dev chunk_i dist_args None []) (\<lambda>(at_most_one_update, incoming, upds).
      if at_most_one_update then Inr (incoming, upds, dist_args)
      else
        ebind (emap (\<lambda>(i, arg). ebind (drain_device dt dev arg) (\<lambda>arg'. Inr (i, arg')))
                 dist_args) (\<lambda>dist_args'.
          Inr (None, [], dist_args')))"

text \<open>
  The arguments of one kernel call: the positional ones in the order of their positions,
  the keyword ones by name.
\<close>

definition positional_args :: "(arg_key \<times> 'v) list \<Rightarrow> 'v list" where
  "positional_args args = concat (map (\<lambda>(k, v). case k of Pos i \<Rightarrow> [v] | Kw n \<Rightarrow> []) args)"

definition keyword_args :: "(arg_key \<times> 'v) list \<Rightarrow> (string \<times> 'v) list" where
  "keyword_args args = concat (map (\<lambda>(k, v). case k of Pos i \<Rightarrow> [] | Kw n \<Rightarrow> [(n, v)]) args)"

text \<open>
  The loop over the pending updates: the kernel on the region \<open>idx\<close> of every argument,
  with the argument \<open>incoming_index\<close> replaced by the payload of the update.
\<close>

fun kernel_updates ::
  "'a kernel \<Rightarrow> arg_key option \<Rightarrow> (arg_key \<times> 'a ndarray) list
    \<Rightarrow> ('a ndarray \<times> slice list) list \<Rightarrow> error + ('a ndarray \<times> slice list) list" where
  "kernel_updates kern incoming_index args [] = Inr []"
| "kernel_updates kern incoming_index args ((update, idx) # update_map) =
    ebind (emap (\<lambda>(k, arg). ebind (getitem arg idx) (\<lambda>s. Inr (k, s))) args) (\<lambda>args_slice.
      let args_slice' = map (\<lambda>(k, s). if Some k = incoming_index then (k, update) else (k, s))
                          args_slice
      in ebind (kern (positional_args args_slice') (keyword_args args_slice')) (\<lambda>new_data.
         ebind (kernel_updates kern incoming_index args update_map) (\<lambda>rest.
           Inr ((new_data, idx) # rest))))"

text \<open>
  The loop over the chunks of one device, and the loop over the devices.  The arrays
  handed to the kernel are the buffers of the chunks, read after \<^verbatim>\<open>_prepare_updates\<close>
  has run, since draining changes a buffer in place.
\<close>

fun kernel_chunks ::
  "'a dtype \<Rightarrow> 'a kernel \<Rightarrow> (int \<times> slice list list) list \<Rightarrow> (arg_key \<times> 'a ndarray) list
    \<Rightarrow> int \<Rightarrow> nat list \<Rightarrow> (arg_key \<times> 'a dist) list
    \<Rightarrow> error + ('a chunk list \<times> (arg_key \<times> 'a dist) list)" where
  "kernel_chunks dt kern imap regular_args dev [] dist_args = Inr ([], dist_args)"
| "kernel_chunks dt kern imap regular_args dev (chunk_i # chunk_is) dist_args =
    ebind (prepare_args dist_args regular_args dev chunk_i) (\<lambda>array_args0.
    ebind (prepare_updates dt dist_args dev chunk_i) (\<lambda>(incoming_index, update_map, dist_args').
    ebind (prepare_args dist_args' regular_args dev chunk_i) (\<lambda>array_args.
    ebind (kern (positional_args array_args) (keyword_args array_args)) (\<lambda>chunk.
    ebind (dict_get imap dev) (\<lambda>idxs.
    ebind (list_get idxs chunk_i) (\<lambda>idx.
    ebind (kernel_updates kern incoming_index array_args update_map) (\<lambda>new_updates.
      let new_chunk = \<lparr>data = chunk, device = dev, index = idx, updates = new_updates\<rparr> in
      ebind (kernel_chunks dt kern imap regular_args dev chunk_is dist_args')
        (\<lambda>(new_chunks, dist_args'').
          Inr (new_chunk # new_chunks, dist_args'')))))))))"

fun kernel_devices ::
  "'a dtype \<Rightarrow> 'a kernel \<Rightarrow> (int \<times> slice list list) list \<Rightarrow> (arg_key \<times> 'a ndarray) list
    \<Rightarrow> (int \<times> nat) list \<Rightarrow> (arg_key \<times> 'a dist) list
    \<Rightarrow> error + (int \<times> 'a chunk list) list" where
  "kernel_devices dt kern imap regular_args [] dist_args = Inr []"
| "kernel_devices dt kern imap regular_args ((dev, chunk_count) # counts) dist_args =
    ebind (kernel_chunks dt kern imap regular_args dev [0..<chunk_count] dist_args)
      (\<lambda>(new_chunks, dist_args').
        ebind (kernel_devices dt kern imap regular_args counts dist_args')
          (\<lambda>rest. Inr ((dev, new_chunks) # rest)))"

text \<open>\<^verbatim>\<open>_execute_kernel\<close>.\<close>

definition execute_kernel ::
  "bool \<Rightarrow> 'a dtype \<Rightarrow> 'a dist \<Rightarrow> 'a kernel \<Rightarrow> 'a operand list \<Rightarrow> (string \<times> 'a operand) list
    \<Rightarrow> error + 'a dist" where
  "execute_kernel nccl_available dt self kern args kwargs =
    ebind (collect_args nccl_available dt self 0 args) (\<lambda>(pos_arrays, regular_arrays).
    ebind (collect_kwargs self kwargs) (\<lambda>kw_arrays.
      let distributed_arrays = pos_arrays @ kw_arrays in
      ebind (count_chunks_on_devices [] distributed_arrays) (\<lambda>chunk_counts.
      ebind (kernel_devices dt kern (index_map_of self) regular_arrays chunk_counts
               distributed_arrays) (\<lambda>new_chunks_map.
        new_DistributedArray nccl_available (d_shape self) new_chunks_map None
          (Some (d_comms self))))))"

section \<open>Reductions on distributed arrays\<close>

text \<open>
  A reduction kernel has a name and reduces an array along an axis.  Python's
  \<^verbatim>\<open>xs[:axis] + xs[axis+1:]\<close> on a tuple is \<open>without_axis\<close>.
\<close>

record 'a reduction_kernel =
  kernel_name :: string
  kernel_call :: "'a ndarray \<Rightarrow> int \<Rightarrow> error + 'a ndarray"

definition py_slice_list :: "'x list \<Rightarrow> int option \<Rightarrow> int option \<Rightarrow> 'x list" where
  "py_slice_list xs start stop =
    (case slice_indices (Slice start stop None) (int (length xs)) of
       Inl e \<Rightarrow> []
     | Inr (i, j, k) \<Rightarrow> take (nat (j - i)) (drop (nat i) xs))"

definition without_axis :: "'x list \<Rightarrow> int \<Rightarrow> 'x list" where
  "without_axis xs axis = py_slice_list xs None (Some axis) @ py_slice_list xs (Some (axis + 1)) None"

fun reduce_updates ::
  "'a reduction_kernel \<Rightarrow> int \<Rightarrow> ('a ndarray \<times> slice list) list
    \<Rightarrow> error + ('a ndarray \<times> slice list) list" where
  "reduce_updates kern axis [] = Inr []"
| "reduce_updates kern axis ((update, update_index) # us) =
    ebind (kernel_call kern update axis) (\<lambda>new_update_data.
    ebind (reduce_updates kern axis us) (\<lambda>rest.
      Inr ((atleast_1d new_update_data, without_axis update_index axis) # rest)))"

definition reduce_chunk ::
  "'a reduction_kernel \<Rightarrow> int \<Rightarrow> int \<Rightarrow> 'a chunk \<Rightarrow> error + 'a chunk" where
  "reduce_chunk kern axis dev chunk =
    ebind (kernel_call kern (data chunk) axis) (\<lambda>new_data.
    ebind (reduce_updates kern axis (updates chunk)) (\<lambda>new_updates.
      Inr \<lparr>data = atleast_1d new_data, device = dev, index = without_axis (index chunk) axis,
           updates = new_updates\<rparr>))"

text \<open>
  \<^verbatim>\<open>__cupy_override_reduction_kernel__\<close>.  \<open>out\<close> is \<^verbatim>\<open>None\<close> or some object; the argument
  \<^verbatim>\<open>dtype\<close> is only handed on to the kernel and is part of \<open>kernel_call\<close>.

  The dtype of a distributed array is not a field of \<open>dist\<close>: it is the argument \<open>dt\<close> of
  the functions that read \<^verbatim>\<open>self.dtype\<close>.  The reduction makes its result with
  \<^verbatim>\<open>new_dtype = None\<close>, which is never assigned again, so the new array has NumPy's
  default dtype \<^verbatim>\<open>float64\<close> whatever the dtype of the operand and of the reduced chunks
  is.  That dtype is the argument \<open>default_dtype\<close>; the result is the new array together
  with it, and it is the dtype with which the array is read afterwards: \<open>asnumpy\<close> of
  the result folds the chunks into a host array of the dtype \<open>default_dtype\<close> with the
  operations of \<open>default_dtype\<close>.
\<close>

definition cupy_override_reduction_kernel ::
  "bool \<Rightarrow> 'a dtype \<Rightarrow> 'a dtype \<Rightarrow> 'a dist \<Rightarrow> 'a reduction_kernel \<Rightarrow> int \<Rightarrow> 'o option
    \<Rightarrow> bool \<Rightarrow> error + ('a dist \<times> 'a dtype)" where
  "cupy_override_reduction_kernel nccl_available dt default_dtype self kern axis out keepdims =
    (if out \<noteq> None then Inl RuntimeError
     else if keepdims then Inl RuntimeError
     else
       ebind
         (if kernel_name kern = ''cupy_max''
          then (if d_mode self = Some MaxMode then Inr (MaxMode, copy_chunks_map self, False)
                else ebind (replica_mode_chunks_map dt self) (\<lambda>cm. Inr (MaxMode, cm, True)))
          else if kernel_name kern = ''cupy_min''
          then (if d_mode self = Some MinMode then Inr (MinMode, copy_chunks_map self, False)
                else ebind (replica_mode_chunks_map dt self) (\<lambda>cm. Inr (MinMode, cm, True)))
          else if kernel_name kern = ''cupy_sum''
          then ebind (op_mode_chunks_map dt self SumMode) (\<lambda>cm. Inr (SumMode, cm, False))
          else if kernel_name kern = ''cupy_prod''
          then ebind (op_mode_chunks_map dt self ProdMode) (\<lambda>cm. Inr (ProdMode, cm, False))
          else Inl RuntimeError)
         (\<lambda>(mode, chunks_map, overwrites).
           ebind
             (if overwrites
              then emap (\<lambda>(dev, chunks).
                     ebind (emap (set_identity_on_ignored_entries (identity_of dt mode)) chunks)
                       (\<lambda>chunks'. Inr (dev, chunks'))) chunks_map
              else Inr chunks_map)
             (\<lambda>chunks_map'.
               ebind (emap (\<lambda>(dev, chunks).
                        ebind (emap (reduce_chunk kern axis dev) chunks)
                          (\<lambda>chunks'. Inr (dev, chunks'))) chunks_map')
                 (\<lambda>new_chunks_map.
                   ebind (new_DistributedArray nccl_available (without_axis (d_shape self) axis)
                            new_chunks_map (Some mode) (Some (d_comms self)))
                     (\<lambda>new_array. Inr (new_array, default_dtype))))))"

section \<open>A concrete dtype\<close>

text \<open>
  The dtype \<^verbatim>\<open>int64\<close>: values as integers in \<open>[- 2 ^ 63, 2 ^ 63)\<close>, addition and
  multiplication wrapping around, the table \<^verbatim>\<open>_nccl_dtypes\<close> knowing it.
\<close>

definition wrap64 :: "int \<Rightarrow> int" where
  "wrap64 x = (x + 2 ^ 63) mod 2 ^ 64 - 2 ^ 63"

definition int64_dtype :: "int dtype" where
  "int64_dtype =
    \<lparr>dt_zero = 0, dt_one = 1, dt_min_value = - (2 ^ 63), dt_max_value = 2 ^ 63 - 1,
     dt_add = (\<lambda>a b. wrap64 (a + b)), dt_multiply = (\<lambda>a b. wrap64 (a * b)),
     dt_minimum = min, dt_maximum = max, dt_nccl_known = True\<rparr>"

section \<open>Observing arrays and concrete inputs\<close>

text \<open>The cells of an array in the order of \<open>ndindex\<close>, as \<^verbatim>\<open>a.flatten().tolist()\<close>.\<close>

definition tolist :: "'a ndarray \<Rightarrow> 'a list" where
  "tolist a = map (nd_data a) (ndindex (nd_shape a))"

text \<open>
  \<^verbatim>\<open>asnumpy\<close> of the result of an operation, as a list; the host buffer of
  \<^verbatim>\<open>numpy.empty\<close> is taken to hold zeros.
\<close>

definition materialize :: "(error + int dist) \<Rightarrow> error + int list" where
  "materialize r = ebind r (\<lambda>d. ebind (asnumpy (\<lambda>j. 0) int64_dtype d) (\<lambda>a. Inr (tolist a)))"

text \<open>
  The host vector \<^verbatim>\<open>[5, 7]\<close>; the index map \<^verbatim>\<open>{0: slice(None), 1: slice(None)}\<close>, which
  puts the whole vector on each of two devices; the distributed array made of them in
  the mode \<^verbatim>\<open>sum\<close>; and a kernel that returns its first operand.
\<close>

definition vec57 :: "int ndarray" where
  "vec57 = \<lparr>nd_shape = [2], nd_data = (\<lambda>j. if j = [0] then 5 else if j = [1] then 7 else 0)\<rparr>"

definition both_devices :: "(int \<times> device_idxs) list" where
  "both_devices = [(0, IdxOne (IdxSingle (IdxSlice (Slice None None None)))),
                   (1, IdxOne (IdxSingle (IdxSlice (Slice None None None))))]"

definition vec57_sum :: "error + int dist" where
  "vec57_sum =
    fst (distributed_array True int64_dtype [vec57] (NdArray 0) both_devices ''sum'' None)"

definition first_operand :: "int kernel" where
  "first_operand pos kw = (case pos @ map snd kw of a # rest \<Rightarrow> Inr a | [] \<Rightarrow> Inl TypeError)"

text \<open>
  The two chunks of the array above: \<^verbatim>\<open>[5, 7]\<close> on device 0 and \<^verbatim>\<open>[0, 0]\<close> on device 1,
  both for the whole index range.
\<close>

definition chunk57 :: "int chunk" where
  "chunk57 = \<lparr>data = vec57, device = 0, index = [Slice (Some 0) (Some 2) (Some 1)],
              updates = []\<rparr>"

definition chunk00 :: "int chunk" where
  "chunk00 = \<lparr>data = \<lparr>nd_shape = [2], nd_data = (\<lambda>j. 0)\<rparr>, device = 1,
              index = [Slice (Some 0) (Some 2) (Some 1)], updates = []\<rparr>"

text \<open>
  The host matrix of shape \<^verbatim>\<open>(4, 4)\<close> with the value \<open>4 r + c\<close> in row \<open>r\<close> and column \<open>c\<close>;
  the index map \<^verbatim>\<open>{0: [(0:2, 0:4)], 1: [(2:4, 0:4)]}\<close>, which gives the first two rows
  to device 0 and the last two to device 1; and the same index map as the validation
  returns it.
\<close>

definition mat44 :: "int ndarray" where
  "mat44 = \<lparr>nd_shape = [4, 4],
            nd_data = (\<lambda>j. case j of [r, c] \<Rightarrow> 4 * r + c | _ \<Rightarrow> 0)\<rparr>"

definition row_split :: "(int \<times> device_idxs) list" where
  "row_split =
    [(0, IdxList [IdxTuple [IdxSlice (Slice (Some 0) (Some 2) None),
                            IdxSlice (Slice (Some 0) (Some 4) None)]]),
     (1, IdxList [IdxTuple [IdxSlice (Slice (Some 2) (Some 4) None),
                            IdxSlice (Slice (Some 0) (Some 4) None)]])]"

definition row_split_slices :: "(int \<times> slice list list) list" where
  "row_split_slices =
    [(0, [[Slice (Some 0) (Some 2) (Some 1), Slice (Some 0) (Some 4) (Some 1)]]),
     (1, [[Slice (Some 2) (Some 4) (Some 1), Slice (Some 0) (Some 4) (Some 1)]])]"



section \<open>Operands of a kernel call\<close>












section \<open>Properties of the index algebra\<close>

lemma extgcd_loop_inv:
  "0 \<le> c \<Longrightarrow> 0 \<le> d \<Longrightarrow> (\<exists>y. c = a * x + b * y) \<Longrightarrow> (\<exists>v. d = a * u + b * v) \<Longrightarrow>
   extgcd_loop c d x u = (g, x') \<Longrightarrow> g = gcd c d \<and> (\<exists>y. g = a * x' + b * y)"
proof (induction c d x u rule: extgcd_loop.induct)
  case (1 c d x u)
  show ?case
  proof (cases "d = 0")
    case True
    have "extgcd_loop c d x u = (c, x)" using True by (subst extgcd_loop.simps) simp
    then have "g = c" "x' = x" using "1.prems"(5) by simp_all
    then show ?thesis using True "1.prems"(1,3) by simp
  next
    case False
    define r where "r = c div d"
    have run: "extgcd_loop d (c - d * r) u (x - u * r) = (g, x')"
      using "1.prems"(5) False by (subst (asm) extgcd_loop.simps) (simp add: r_def Let_def)
    have md: "c - d * r = c mod d" by (simp add: r_def minus_mult_div_eq_mod)
    have dpos: "0 < d" using False "1.prems"(2) by simp
    have nn: "0 \<le> c - d * r" using md dpos by simp
    obtain y v where y: "c = a * x + b * y" and v: "d = a * u + b * v"
      using "1.prems"(3,4) by blast
    have "c - d * r = a * (x - u * r) + b * (y - v * r)"
      by (subst y, subst v) (simp add: algebra_simps)
    then have ex: "\<exists>w. c - d * r = a * (x - u * r) + b * w" by blast
    have "g = gcd d (c - d * r) \<and> (\<exists>y. g = a * x' + b * y)"
      using "1.IH" [OF False r_def "1.prems"(2) nn "1.prems"(4) ex run] .
    moreover have "gcd d (c - d * r) = gcd c d"
      by (simp add: md gcd.commute gcd_red_int [symmetric])
    ultimately show ?thesis by metis
  qed
qed

lemma extgcd_correct:
  assumes "0 < a" "0 < b" "extgcd a b = (g, x)"
  shows "g = gcd a b \<and> (\<exists>y. g = a * x + b * y)"
proof -
  have 1: "\<exists>y. a = a * 1 + b * y" by (rule exI [of _ 0]) simp
  have 2: "\<exists>v. b = a * 0 + b * v" by (rule exI [of _ 1]) simp
  have 3: "extgcd_loop a b 1 0 = (g, x)" using assms(3) by (simp add: extgcd_def)
  have 4: "0 \<le> a" "0 \<le> b" using assms by simp_all
  show ?thesis
    by (rule extgcd_loop_inv [OF 4 1 2 3])
qed

lemma slice_indices_positive:
  assumes "0 \<le> len" "positive_step s"
  shows "\<exists>st sp k. slice_indices s len = Inr (st, sp, k) \<and> 0 \<le> st \<and> st \<le> len
           \<and> 0 \<le> sp \<and> sp \<le> len \<and> 0 < k
           \<and> k = (case slice_step s of None \<Rightarrow> 1 | Some k \<Rightarrow> k)"
  using assms
  by (cases s) (auto simp: slice_indices_def positive_step_def Let_def split: option.splits)

lemma aligned_start:
  fixes sa sb g x as bs L c0 c :: int
  assumes sa: "0 < sa" and sb: "0 < sb" and g: "g = gcd sa sb"
    and bez: "\<exists>y. g = sa * x + sb * y" and cong: "(bs - as) mod g = 0"
    and L_def: "L = sa div g * sb"
    and c0_def: "c0 = as + sa * (x * ((bs - as) div g) mod (L div sa))"
    and c_def: "c = (if c0 < bs then c0 + ((bs - c0 - 1) div L + 1) * L else c0)"
  shows "L = lcm sa sb" and "0 < L div sa" and "0 < L"
    and "(as \<le> i \<and> (i - as) mod sa = 0 \<and> bs \<le> i \<and> (i - bs) mod sb = 0)
          \<longleftrightarrow> (c \<le> i \<and> (i - c) mod L = 0)"
    and "as \<le> c" and "bs \<le> c"
proof -
  have gpos: "0 < g" using g sa by (simp add: gcd_pos_int)
  have gsa: "g dvd sa" and gsb: "g dvd sb" using g by simp_all
  obtain q where q: "sb = g * q" using gsb by (auto elim: dvdE)
  obtain p where p: "sa = g * p" using gsa by (auto elim: dvdE)
  have qpos: "0 < q" using q sb gpos by (simp add: zero_less_mult_iff)
  have ppos: "0 < p" using p sa gpos by (simp add: zero_less_mult_iff)
  have Lq: "L = sa * q" using gpos by (simp add: L_def p q)
  have Lp: "L = sb * p" using gpos by (simp add: L_def p q)
  have "lcm sa sb = \<bar>sa\<bar> * \<bar>sb\<bar> div gcd sa sb" by (rule lcm_altdef_int)
  also have "\<dots> = sa * sb div g" using sa sb g by simp
  also have "\<dots> = L" using gpos by (simp add: Lq q)
  finally show Llcm: "L = lcm sa sb" by simp
  have Ldiv: "L div sa = q" using sa by (simp add: Lq)
  show "0 < L div sa" using Ldiv qpos by simp
  show Lpos: "0 < L" using Lq sa qpos by simp
  define D' where "D' = (bs - as) div g"
  have D: "bs - as = g * D'" using cong by (simp add: D'_def mod_eq_0_iff_dvd)
  define k where "k = x * D' mod q"
  have c0k: "c0 = as + sa * k" by (simp add: c0_def k_def D'_def Ldiv)
  have k0: "0 \<le> k" and kq: "k < q" using qpos by (simp_all add: k_def)
  define t where "t = x * D' div q"
  have kt: "k = x * D' - q * t" by (simp add: k_def t_def minus_mult_div_eq_mod)
  obtain y where y: "g = sa * x + sb * y" using bez by blast
  have "sa * k = (sa * x) * D' - L * t" by (simp add: kt Lq algebra_simps)
  also have "sa * x = g - sb * y" using y by simp
  finally have "sa * k = (bs - as) - sb * (y * D' + p * t)"
    by (simp add: D Lp algebra_simps)
  then have c0b: "c0 - bs = sb * (- (y * D' + p * t))" by (simp add: c0k algebra_simps)
  have lo: "as \<le> c0" using k0 sa by (simp add: c0k)
  have hi: "c0 < as + L"
  proof -
    have "sa * k < sa * q" using kq sa by simp
    then show ?thesis by (simp add: c0k Lq)
  qed
  define m where "m = (if c0 < bs then (bs - c0 - 1) div L + 1 else 0)"
  have cm: "c = c0 + m * L" by (simp add: c_def m_def)
  have m0: "0 \<le> m"
  proof (cases "c0 < bs")
    case True
    then have "0 \<le> (bs - c0 - 1) div L" using Lpos by (simp add: pos_imp_zdiv_nonneg_iff)
    then show ?thesis by (simp add: m_def)
  qed (simp add: m_def)
  show asc: "as \<le> c"
  proof -
    have "0 \<le> m * L" using m0 Lpos by simp
    then show ?thesis using lo cm by simp
  qed
  have bound: "if c0 < bs then bs \<le> c \<and> c - L < bs else c = c0"
  proof (cases "c0 < bs")
    case True
    define n where "n = bs - c0 - 1"
    have "n = L * (n div L) + n mod L" by simp
    moreover have "0 \<le> n mod L" "n mod L < L" using Lpos by simp_all
    ultimately have "L * (n div L) \<le> n" "n < L * (n div L) + L" by linarith+
    moreover have "c = c0 + (n div L + 1) * L" using True by (simp add: c_def n_def)
    then have "c = c0 + L * (n div L) + L" by (simp add: algebra_simps)
    ultimately show ?thesis using True by (simp add: n_def)
  next
    case False
    then show ?thesis by (simp add: c_def)
  qed
  show bsc: "bs \<le> c" using bound by (auto split: if_splits)
  have sac: "sa dvd c - as"
  proof -
    have "c - as = sa * (k + m * q)" by (simp add: cm c0k Lq algebra_simps)
    then show ?thesis by simp
  qed
  have sbc: "sb dvd c - bs"
  proof -
    have "c - bs = sb * (- (y * D' + p * t) + m * p)"
      using c0b by (simp add: cm Lp algebra_simps)
    then show ?thesis by simp
  qed
  show "(as \<le> i \<and> (i - as) mod sa = 0 \<and> bs \<le> i \<and> (i - bs) mod sb = 0)
          \<longleftrightarrow> (c \<le> i \<and> (i - c) mod L = 0)"
  proof
    assume A: "as \<le> i \<and> (i - as) mod sa = 0 \<and> bs \<le> i \<and> (i - bs) mod sb = 0"
    then have "sa dvd i - as" "sb dvd i - bs" by (simp_all add: mod_eq_0_iff_dvd)
    then have "sa dvd (i - as) - (c - as)" "sb dvd (i - bs) - (c - bs)"
      using sac sbc by (simp_all only: dvd_diff)
    then have "sa dvd i - c" "sb dvd i - c" by simp_all
    then have Ldvd: "L dvd i - c" unfolding Llcm by (rule lcm_least)
    have "c \<le> i"
    proof (rule ccontr)
      assume "\<not> c \<le> i"
      then have pos: "0 < c - i" by simp
      have "L dvd c - i" using Ldvd by (simp add: dvd_diff_commute)
      then have "L \<le> c - i" using pos by (rule zdvd_imp_le)
      then have "i \<le> c - L" by simp
      then show False using bound hi A by (auto split: if_splits)
    qed
    then show "c \<le> i \<and> (i - c) mod L = 0" using Ldvd by (simp add: mod_eq_0_iff_dvd)
  next
    assume B: "c \<le> i \<and> (i - c) mod L = 0"
    then have Ldvd: "L dvd i - c" by (simp add: mod_eq_0_iff_dvd)
    have "sa dvd L" by (simp add: Lq)
    moreover have "sb dvd L" by (simp add: Lp)
    ultimately have "sa dvd L" "sb dvd L" by blast+
    then have "sa dvd i - c" "sb dvd i - c" using Ldvd by (blast intro: dvd_trans)+
    then have "sa dvd (i - c) + (c - as)" "sb dvd (i - c) + (c - bs)"
      using sac sbc by (simp_all only: dvd_add)
    then have "sa dvd i - as" "sb dvd i - bs" by simp_all
    then show "as \<le> i \<and> (i - as) mod sa = 0 \<and> bs \<le> i \<and> (i - bs) mod sb = 0"
      using B asc bsc by (simp add: mod_eq_0_iff_dvd)
  qed
qed

lemma slice_intersection_incongruent:
  assumes ia: "slice_indices a len = Inr (as, ae, sa)"
    and ib: "slice_indices b len = Inr (bs, be, sb)"
    and sa: "0 < sa" and sb: "0 < sb"
    and nc: "(bs - as) mod gcd sa sb \<noteq> 0"
  shows "slice_intersection a b len = Inr None"
    and "\<not> (in_range (as, ae, sa) i \<and> in_range (bs, be, sb) i)"
proof -
  obtain g x where gx: "extgcd sa sb = (g, x)" by (cases "extgcd sa sb")
  have g: "g = gcd sa sb"
    using extgcd_correct [OF sa sb gx] by blast
  have gpos: "0 < g" using g sa by (simp add: gcd_pos_int)
  show "slice_intersection a b len = Inr None"
    using nc gpos g by (simp add: slice_intersection_def ia ib ebind_def gx)
  show "\<not> (in_range (as, ae, sa) i \<and> in_range (bs, be, sb) i)"
  proof
    assume "in_range (as, ae, sa) i \<and> in_range (bs, be, sb) i"
    then have "sa dvd i - as" "sb dvd i - bs"
      using sa sb by (simp_all add: in_range_def mod_eq_0_iff_dvd)
    then have "g dvd i - as" "g dvd i - bs" using g by (auto intro: dvd_trans)
    then have "g dvd (i - as) - (i - bs)" by (simp only: dvd_diff)
    then have "g dvd bs - as" by simp
    then show False using nc g by (simp add: mod_eq_0_iff_dvd)
  qed
qed

lemma slice_intersection_congruent:
  assumes ia: "slice_indices a len = Inr (as, ae, sa)"
    and ib: "slice_indices b len = Inr (bs, be, sb)"
    and sa: "0 < sa" and sb: "0 < sb"
    and cg: "(bs - as) mod gcd sa sb = 0"
  obtains c where "as \<le> c" and "bs \<le> c"
    and "\<And>i. (as \<le> i \<and> (i - as) mod sa = 0 \<and> bs \<le> i \<and> (i - bs) mod sb = 0)
                 \<longleftrightarrow> (c \<le> i \<and> (i - c) mod lcm sa sb = 0)"
    and "slice_intersection a b len =
           Inr (if c < min ae be
                then Some (Slice (Some c) (Some (min ae be)) (Some (lcm sa sb)))
                else None)"
proof -
  obtain g x where gx: "extgcd sa sb = (g, x)" by (cases "extgcd sa sb")
  have g: "g = gcd sa sb" and bez: "\<exists>y. g = sa * x + sb * y"
    using extgcd_correct [OF sa sb gx] by blast+
  have gpos: "0 < g" using g sa by (simp add: gcd_pos_int)
  have True: "(bs - as) mod g = 0" using cg g by simp
  define L where "L = sa div g * sb"
  define c0 where "c0 = as + sa * (x * ((bs - as) div g) mod (L div sa))"
  define c where "c = (if c0 < bs then c0 + ((bs - c0 - 1) div L + 1) * L else c0)"
  note al = aligned_start [OF sa sb g bez True L_def c0_def c_def]
  have L: "L = lcm sa sb" and Ld: "0 < L div sa" and Lp: "0 < L" by (rule al)+
  have eqv: "(as \<le> i \<and> (i - as) mod sa = 0 \<and> bs \<le> i \<and> (i - bs) mod sb = 0)
        \<longleftrightarrow> (c \<le> i \<and> (i - c) mod lcm sa sb = 0)" for i
    using al(4) [of i] unfolding L .
  have asc: "as \<le> c" and bsc: "bs \<le> c" by (rule al)+
  have nz: "sa div g \<noteq> 0" using Lp by (auto simp: L_def)
  have cc: "(if c0 < bs then c0 + ((bs - c0 - 1) div L + 1) * L else c0) = c"
    by (simp add: c_def)
  have "slice_intersection a b len =
     Inr (if c < min ae be then Some (Slice (Some c) (Some (min ae be)) (Some L)) else None)"
    using True gpos sa sb Ld Lp nz unfolding c_def c0_def L_def
    by (simp add: slice_intersection_def ia ib ebind_def gx Let_def)
  then have r: "slice_intersection a b len =
     Inr (if c < min ae be then Some (Slice (Some c) (Some (min ae be)) (Some (lcm sa sb)))
          else None)" by (simp only: L)
  show thesis using that [OF asc bsc eqv r] .
qed

lemma slice_indices_normal:
  assumes "0 \<le> c" "c \<le> len" "0 \<le> e" "e \<le> len" "0 < k"
  shows "slice_indices (Slice (Some c) (Some e) (Some k)) len = Inr (c, e, k)"
  using assms by (auto simp: slice_indices_def Let_def)

text \<open>
  Claim C5.  For two slices with positive steps on an axis of size \<open>len\<close>,
  \<open>slice_intersection\<close> raises nothing; the slice it returns selects exactly the
  indices that both slices select (none when it returns \<^verbatim>\<open>None\<close>); its step is
  the least common multiple of the two steps; and it returns \<^verbatim>\<open>None\<close> whenever the two
  normalized starts are incongruent modulo the greatest common divisor of the steps.
\<close>

theorem slice_intersection_correct:
  assumes len: "0 \<le> len" and pa: "positive_step a" and pb: "positive_step b"
  shows "\<exists>as ae sa bs be sb r.
      slice_indices a len = Inr (as, ae, sa) \<and> slice_indices b len = Inr (bs, be, sb)
    \<and> slice_intersection a b len = Inr r
    \<and> (\<forall>i. (case r of None \<Rightarrow> False | Some c \<Rightarrow> slice_contains c len i)
            = (slice_contains a len i \<and> slice_contains b len i))
    \<and> (\<forall>c. r = Some c \<longrightarrow> slice_step c = Some (lcm sa sb))
    \<and> ((bs - as) mod gcd sa sb \<noteq> 0 \<longrightarrow> r = None)"
proof -
  obtain as ae sa where ia: "slice_indices a len = Inr (as, ae, sa)"
    and ra: "0 \<le> as" "as \<le> len" "0 \<le> ae" "ae \<le> len" and sa: "0 < sa"
    using slice_indices_positive [OF len pa] by blast
  obtain bs be sb where ib: "slice_indices b len = Inr (bs, be, sb)"
    and rb: "0 \<le> bs" "bs \<le> len" "0 \<le> be" "be \<le> len" and sb: "0 < sb"
    using slice_indices_positive [OF len pb] by blast
  have ca: "slice_contains a len i = (as \<le> i \<and> i < ae \<and> (i - as) mod sa = 0)" for i
    using sa by (simp add: slice_contains_def ia in_range_def)
  have cb: "slice_contains b len i = (bs \<le> i \<and> i < be \<and> (i - bs) mod sb = 0)" for i
    using sb by (simp add: slice_contains_def ib in_range_def)
  show ?thesis
  proof (cases "(bs - as) mod gcd sa sb = 0")
    case False
    have r: "slice_intersection a b len = Inr None"
      by (rule slice_intersection_incongruent(1) [OF ia ib sa sb False])
    have "\<not> (slice_contains a len i \<and> slice_contains b len i)" for i
      using slice_intersection_incongruent(2) [OF ia ib sa sb False, of i] sa sb
      by (simp add: slice_contains_def ia ib)
    then show ?thesis using ia ib r by simp
  next
    case True
    obtain c where asc: "as \<le> c" and bsc: "bs \<le> c"
      and eqv: "\<And>i. (as \<le> i \<and> (i - as) mod sa = 0 \<and> bs \<le> i \<and> (i - bs) mod sb = 0)
                 \<longleftrightarrow> (c \<le> i \<and> (i - c) mod lcm sa sb = 0)"
      and r: "slice_intersection a b len =
           Inr (if c < min ae be
                then Some (Slice (Some c) (Some (min ae be)) (Some (lcm sa sb)))
                else None)"
      by (rule slice_intersection_congruent [OF ia ib sa sb True]) (rule that)
    have Lpos: "0 < lcm sa sb" using sa sb by (simp add: lcm_pos_int)
    show ?thesis
    proof (cases "c < min ae be")
      case False
      have "\<not> (slice_contains a len i \<and> slice_contains b len i)" for i
      proof
        assume "slice_contains a len i \<and> slice_contains b len i"
        then have "c \<le> i" "i < min ae be" using eqv [of i] by (simp_all add: ca cb)
        then show False using False by simp
      qed
      moreover have "slice_intersection a b len = Inr None" using r False by simp
      ultimately show ?thesis using ia ib True by simp
    next
      case lt: True
      have c0: "0 \<le> c" using asc ra by simp
      have cl: "c \<le> len" using lt ra by simp
      have e0: "0 \<le> min ae be" using ra rb by simp
      have el: "min ae be \<le> len" using ra by simp
      have ic: "slice_indices (Slice (Some c) (Some (min ae be)) (Some (lcm sa sb))) len
          = Inr (c, min ae be, lcm sa sb)"
        using slice_indices_normal [OF c0 cl e0 el] Lpos by simp
      have cc: "slice_contains (Slice (Some c) (Some (min ae be)) (Some (lcm sa sb))) len i
          = (c \<le> i \<and> i < min ae be \<and> (i - c) mod lcm sa sb = 0)" for i
        using Lpos by (simp add: slice_contains_def ic in_range_def)
      have "slice_contains (Slice (Some c) (Some (min ae be)) (Some (lcm sa sb))) len i
          = (slice_contains a len i \<and> slice_contains b len i)" for i
        unfolding cc ca cb using eqv [of i] by auto
      moreover have "slice_intersection a b len
          = Inr (Some (Slice (Some c) (Some (min ae be)) (Some (lcm sa sb))))"
        using r lt by simp
      ultimately show ?thesis using ia ib True by simp
    qed
  qed
qed

text \<open>
  The theorem at two concrete pairs: steps 4 and 6 from the starts 1 and 3 meet first at 9
  with step 12, and the even indices never meet \<open>1 + 4k\<close>.
\<close>

theorem slice_intersection_correct_witness:
  "slice_intersection (Slice (Some 1) None (Some 4)) (Slice (Some 3) (Some 30) (Some 6)) 40
     = Inr (Some (Slice (Some 9) (Some 30) (Some 12)))
   \<and> slice_intersection (Slice None None (Some 2)) (Slice (Some 1) None (Some 4)) 40
     = Inr None"
proof -
  let ?a = "Slice (Some 1) None (Some 4)" and ?b = "Slice (Some 3) (Some 30) (Some 6)"
  let ?e = "Slice None None (Some 2)"
  have ia: "slice_indices ?a 40 = Inr (1, 40, 4)" by (simp add: slice_indices_def)
  have ib: "slice_indices ?b 40 = Inr (3, 30, 6)" by (simp add: slice_indices_def)
  have ie: "slice_indices ?e 40 = Inr (0, 40, 2)" by (simp add: slice_indices_def)
  have p: "positive_step ?a" "positive_step ?b" "positive_step ?e"
    by (simp_all add: positive_step_def)
  obtain r where r: "slice_intersection ?a ?b 40 = Inr r"
    and mem: "\<And>i. (case r of None \<Rightarrow> False | Some c \<Rightarrow> slice_contains c 40 i)
            = (slice_contains ?a 40 i \<and> slice_contains ?b 40 i)"
    and st: "\<And>c. r = Some c \<Longrightarrow> slice_step c = Some (lcm 4 6)"
    using slice_intersection_correct [of 40 ?a ?b] p ia ib by auto
  obtain r' where r': "slice_intersection ?e ?a 40 = Inr r'"
    and inc: "(1 - 0) mod gcd (2::int) 4 \<noteq> 0 \<Longrightarrow> r' = None"
    using slice_intersection_correct [of 40 ?e ?a] p ia ie by auto
  have 1: "slice_intersection ?a ?b 40 = Inr (Some (Slice (Some 9) (Some 30) (Some 12)))"
    by (simp add: slice_intersection_def ia ib ebind_def extgcd_def extgcd_loop.simps Let_def)
  have "(1 - 0) mod gcd (2::int) 4 \<noteq> 0" by simp
  then have "r' = None" by (rule inc)
  then show ?thesis using 1 r' by simp
qed

lemma slice_indices_error_cases:
  "slice_indices s len = Inl e \<Longrightarrow> e = ValueError"
  by (auto simp: slice_indices_def Let_def split: if_splits)

lemma slice_intersection_commute:
  assumes pa: "positive_step a" and pb: "positive_step b"
  shows "slice_intersection a b len = slice_intersection b a len"
proof (cases "0 \<le> len")
  case False
  then have "slice_indices a len = Inl ValueError" "slice_indices b len = Inl ValueError"
    by (simp_all add: slice_indices_def Let_def)
  then show ?thesis by (simp add: slice_intersection_def ebind_def)
next
  case len: True
  obtain as ae sa where ia: "slice_indices a len = Inr (as, ae, sa)" and sa: "0 < sa"
    using slice_indices_positive [OF len pa] by blast
  obtain bs be sb where ib: "slice_indices b len = Inr (bs, be, sb)" and sb: "0 < sb"
    using slice_indices_positive [OF len pb] by blast
  have sym: "((as - bs) mod gcd sb sa = 0) = ((bs - as) mod gcd sa sb = 0)"
  proof -
    have "(gcd sa sb dvd as - bs) = (gcd sa sb dvd bs - as)" by (rule dvd_diff_commute)
    then show ?thesis by (simp add: mod_eq_0_iff_dvd gcd.commute)
  qed
  show ?thesis
  proof (cases "(bs - as) mod gcd sa sb = 0")
    case False
    then have F': "(as - bs) mod gcd sb sa \<noteq> 0" using sym by simp
    show ?thesis
      using slice_intersection_incongruent(1) [OF ia ib sa sb False]
        slice_intersection_incongruent(1) [OF ib ia sb sa F'] by simp
  next
    case True
    then have T': "(as - bs) mod gcd sb sa = 0" using sym by simp
    obtain c where asc: "as \<le> c" and bsc: "bs \<le> c"
      and eqv: "\<And>i. (as \<le> i \<and> (i - as) mod sa = 0 \<and> bs \<le> i \<and> (i - bs) mod sb = 0)
                 \<longleftrightarrow> (c \<le> i \<and> (i - c) mod lcm sa sb = 0)"
      and r: "slice_intersection a b len =
           Inr (if c < min ae be
                then Some (Slice (Some c) (Some (min ae be)) (Some (lcm sa sb)))
                else None)"
      by (rule slice_intersection_congruent [OF ia ib sa sb True]) (rule that)
    obtain d where bsd: "bs \<le> d" and asd: "as \<le> d"
      and eqv': "\<And>i. (bs \<le> i \<and> (i - bs) mod sb = 0 \<and> as \<le> i \<and> (i - as) mod sa = 0)
                 \<longleftrightarrow> (d \<le> i \<and> (i - d) mod lcm sb sa = 0)"
      and r': "slice_intersection b a len =
           Inr (if d < min be ae
                then Some (Slice (Some d) (Some (min be ae)) (Some (lcm sb sa)))
                else None)"
      by (rule slice_intersection_congruent [OF ib ia sb sa T']) (rule that)
    have "as \<le> c \<and> (c - as) mod sa = 0 \<and> bs \<le> c \<and> (c - bs) mod sb = 0"
      using eqv [of c] by simp
    then have dc: "d \<le> c" using eqv' [of c] by simp
    have "bs \<le> d \<and> (d - bs) mod sb = 0 \<and> as \<le> d \<and> (d - as) mod sa = 0"
      using eqv' [of d] by simp
    then have cd: "c \<le> d" using eqv [of d] by simp
    have "c = d" using cd dc by simp
    then show ?thesis by (simp add: r r' min.commute lcm.commute)
  qed
qed

lemma emap_zip3_commute:
  assumes "list_all positive_step a_idx" "list_all positive_step b_idx"
  shows "emap (\<lambda>(a, b, len). slice_intersection a b len) (zip3 a_idx b_idx shape)
       = emap (\<lambda>(a, b, len). slice_intersection a b len) (zip3 b_idx a_idx shape)"
  using assms
proof (induction a_idx b_idx shape rule: zip3.induct)
  case (1 x xs y ys z zs)
  then show ?case by (simp add: slice_intersection_commute)
qed (simp_all, (case_tac "b_idx"; simp)?)

text \<open>
  Claim C7.  For index tuples of positive-step slices, \<open>index_intersection\<close> gives the
  same result when its two index arguments are swapped: the same exception, the same
  \<^verbatim>\<open>None\<close>, or the same tuple of slices (hence the same set of indices).
\<close>

theorem index_intersection_symmetric:
  assumes "list_all positive_step a_idx" and "list_all positive_step b_idx"
  shows "index_intersection a_idx b_idx shape = index_intersection b_idx a_idx shape"
proof -
  have "(length a_idx = length b_idx \<and> length b_idx = length shape)
      = (length b_idx = length a_idx \<and> length a_idx = length shape)" by auto
  then show ?thesis
    unfolding index_intersection_def Let_def emap_zip3_commute [OF assms] by simp
qed

text \<open>The theorem at a two-axis index on the shape \<open>(6, 40)\<close>.\<close>

theorem index_intersection_symmetric_witness:
  "index_intersection
      [Slice (Some 2) None None, Slice (Some 3) (Some 30) (Some 6)]
      [Slice (Some 0) (Some 4) (Some 2), Slice (Some 1) None (Some 4)] [6, 40]
    = Inr (Some [Slice (Some 2) (Some 4) (Some 2), Slice (Some 9) (Some 30) (Some 12)])"
proof -
  let ?a = "[Slice (Some 0) (Some 4) (Some 2), Slice (Some 1) None (Some 4)]"
  let ?b = "[Slice (Some 2) None None, Slice (Some 3) (Some 30) (Some 6)]"
  have pa: "list_all positive_step ?a" and pb: "list_all positive_step ?b"
    by (simp_all add: positive_step_def)
  have 1: "slice_intersection (Slice (Some 0) (Some 4) (Some 2)) (Slice (Some 2) None None) 6
      = Inr (Some (Slice (Some 2) (Some 4) (Some 2)))"
    by (simp add: slice_intersection_def slice_indices_def ebind_def extgcd_def
        extgcd_loop.simps Let_def)
  have 2: "slice_intersection (Slice (Some 1) None (Some 4)) (Slice (Some 3) (Some 30) (Some 6)) 40
      = Inr (Some (Slice (Some 9) (Some 30) (Some 12)))"
    by (simp add: slice_intersection_def slice_indices_def ebind_def extgcd_def
        extgcd_loop.simps Let_def)
  have "index_intersection ?a ?b [6, 40]
      = Inr (Some [Slice (Some 2) (Some 4) (Some 2), Slice (Some 9) (Some 30) (Some 12)])"
    by (simp add: index_intersection_def 1 2 ebind_def has_no_none_def)
  then show ?thesis using index_intersection_symmetric [OF pa pb, of "[6, 40]"] by simp
qed

section \<open>Results and loops that may raise\<close>

lemma ebind_Inr [simp]: "ebind (Inr x) f = f x"
  by (simp add: ebind_def)

lemma ebind_Inl [simp]: "ebind (Inl e) f = Inl e"
  by (simp add: ebind_def)

lemma ebind_eq_Inr_iff: "ebind m f = Inr y \<longleftrightarrow> (\<exists>x. m = Inr x \<and> f x = Inr y)"
  by (cases m) simp_all

lemma emap_Inr_length: "emap f xs = Inr ys \<Longrightarrow> length ys = length xs"
  by (induction xs arbitrary: ys) (auto simp: ebind_eq_Inr_iff)

lemma emap_Inr_nth: "emap f xs = Inr ys \<Longrightarrow> k < length xs \<Longrightarrow> f (xs ! k) = Inr (ys ! k)"
proof (induction xs arbitrary: ys k)
  case Nil
  then show ?case by simp
next
  case (Cons x xs)
  then obtain y ys' where "f x = Inr y" "emap f xs = Inr ys'" "ys = y # ys'"
    by (auto simp: ebind_eq_Inr_iff)
  with Cons show ?case by (cases k) simp_all
qed

lemma emap_map_Inr: "(\<And>x. x \<in> set xs \<Longrightarrow> f x = Inr (g x)) \<Longrightarrow> emap f xs = Inr (map g xs)"
  by (induction xs) simp_all

section \<open>Chunk-index validation and the reduction guard\<close>

text \<open>
  Claim C8 says that the validation raises for every malformed index and returns
  nonnegative slices otherwise, as the docstring of \<^verbatim>\<open>_convert_chunk_idx_to_slices\<close>
  does.  The code does not: on an axis of size 4 the integer index \<open>- 1\<close> becomes
  \<^verbatim>\<open>slice(-1, 0)\<close>, which has a negative start and selects nothing; the out-of-range
  integer index \<open>- 9\<close> is accepted as \<^verbatim>\<open>slice(-9, -8)\<close>; and the empty slice
  \<^verbatim>\<open>slice(3, 1)\<close> is accepted, since only \<^verbatim>\<open>start == stop\<close> is rejected.
\<close>

theorem convert_chunk_idx_accepts_malformed:
  "convert_chunk_idx_to_slices [4] (IdxSingle (IdxInt (- 1)))
      = Inr [Slice (Some (- 1)) (Some 0) None]
   \<and> \<not> nonnegative_slice (Slice (Some (- 1)) (Some 0) None)
   \<and> selects_nothing (Slice (Some (- 1)) (Some 0) None) 4
   \<and> convert_chunk_idx_to_slices [4] (IdxSingle (IdxInt (- 9)))
      = Inr [Slice (Some (- 9)) (Some (- 8)) None]
   \<and> convert_chunk_idx_to_slices [4] (IdxSingle (IdxSlice (Slice (Some 3) (Some 1) None)))
      = Inr [Slice (Some 3) (Some 1) (Some 1)]
   \<and> selects_nothing (Slice (Some 3) (Some 1) (Some 1)) 4"
  by (simp add: convert_chunk_idx_to_slices_def convert_axis_def slice_indices_def ebind_def
      nonnegative_slice_def selects_nothing_def)

text \<open>
  Claim C9.  When \<open>out\<close> is not \<^verbatim>\<open>None\<close> or \<open>keepdims\<close> is true, the reduction override
  raises \<^verbatim>\<open>RuntimeError\<close>, whatever the array, the kernel and the axis are: no chunk is
  copied or converted and the kernel is not called.
\<close>

theorem reduction_rejects_out_and_keepdims:
  assumes "out \<noteq> None \<or> keepdims"
  shows "cupy_override_reduction_kernel nccl_available dt default_dtype self kern axis out
           keepdims = Inl RuntimeError"
  using assms by (auto simp: cupy_override_reduction_kernel_def)

text \<open>The theorem for a sum over an array without chunks, once with \<open>out\<close>, once with \<open>keepdims\<close>.\<close>

theorem reduction_rejects_out_and_keepdims_witness:
  "cupy_override_reduction_kernel True int64_dtype int64_dtype
      \<lparr>d_shape = [2], d_chunks_map = [], d_mode = None, d_comms = []\<rparr>
      \<lparr>kernel_name = ''cupy_sum'', kernel_call = (\<lambda>a axis. Inr a)\<rparr> 0 (Some ()) False
     = Inl RuntimeError
   \<and> cupy_override_reduction_kernel True int64_dtype int64_dtype
      \<lparr>d_shape = [2], d_chunks_map = [], d_mode = None, d_comms = []\<rparr>
      \<lparr>kernel_name = ''cupy_sum'', kernel_call = (\<lambda>a axis. Inr a)\<rparr> 0 (None :: unit option) True
     = Inl RuntimeError"
proof -
  have 1: "Some () \<noteq> None \<or> False" by simp
  have 2: "(None :: unit option) \<noteq> None \<or> True" by simp
  show ?thesis
    by (rule conjI) (rule reduction_rejects_out_and_keepdims [OF 1],
      rule reduction_rejects_out_and_keepdims [OF 2])
qed

section \<open>Operand modes in a kernel call\<close>

text \<open>
  Claim C6 says that every distributed operand of a kernel call is converted to the
  replica mode, passed by position or by keyword.  The loop over \<^verbatim>\<open>kwargs\<close> does not
  convert.  For the vector \<^verbatim>\<open>[5, 7]\<close> held in the mode \<^verbatim>\<open>sum\<close> on two devices (the first
  chunk holds \<^verbatim>\<open>[5, 7]\<close>, the second the identity \<^verbatim>\<open>[0, 0]\<close>), the kernel that returns
  its operand gives an array that materializes to \<^verbatim>\<open>[5, 7]\<close> when the operand is
  positional, and to \<^verbatim>\<open>[0, 0]\<close> when it is a keyword argument: the kernel ran on the
  chunks of the mode \<^verbatim>\<open>sum\<close>, and its output was labelled as replicated.
\<close>

theorem execute_kernel_keyword_operand_not_converted:
  "materialize (ebind vec57_sum (\<lambda>d.
      execute_kernel True int64_dtype d first_operand [Distributed d] [])) = Inr [5, 7]
   \<and> materialize (ebind vec57_sum (\<lambda>d.
      execute_kernel True int64_dtype d first_operand [] [(''x'', Distributed d)])) = Inr [0, 0]
   \<and> materialize vec57_sum = Inr [5, 7]"
  by code_simp

section \<open>The caller's memory\<close>

lemma shard_chunks_frame:
  "shard_chunks dt mode_obj r dev idxs st = (res, st')
    \<Longrightarrow> length st' = length st \<and> (\<forall>k. k \<noteq> r \<longrightarrow> st' ! k = st ! k)
        \<and> ((case mode_obj of None \<Rightarrow> True | Some m \<Rightarrow> idempotent m) \<longrightarrow> st' = st)"
proof (induction idxs arbitrary: st res st')
  case Nil
  then show ?case by simp
next
  case (Cons idx idxs)
  show ?case
  proof (cases "getitem (st ! r) idx")
    case (Inl e)
    with Cons.prems show ?thesis by simp
  next
    case (Inr chunk_data)
    define upd where "upd = (case mode_obj of
                  Some m \<Rightarrow>
                    if \<not> idempotent m
                    then setitem (st ! r) idx (scalar (identity_of dt m))
                    else Inr (st ! r)
                | None \<Rightarrow> Inr (st ! r))"
    show ?thesis
    proof (cases upd)
      case (Inl e)
      with Cons.prems Inr show ?thesis by (simp add: upd_def [symmetric])
    next
      case a': (Inr a')
      obtain res2 st2 where rec: "shard_chunks dt mode_obj r dev idxs (st[r := a']) = (res2, st2)"
        by (cases "shard_chunks dt mode_obj r dev idxs (st[r := a'])")
      have st': "st' = st2"
        using Cons.prems Inr a' rec
        by (auto simp: upd_def [symmetric] Let_def split: sum.splits)
      have keep: "(case mode_obj of None \<Rightarrow> True | Some m \<Rightarrow> idempotent m) \<Longrightarrow> st[r := a'] = st"
        using a' by (auto simp: upd_def split: option.splits)
      from Cons.IH [OF rec] st' keep show ?thesis by auto
    qed
  qed
qed

lemma shard_devices_frame:
  "shard_devices dt mode_obj r imap st = (res, st')
    \<Longrightarrow> length st' = length st \<and> (\<forall>k. k \<noteq> r \<longrightarrow> st' ! k = st ! k)
        \<and> ((case mode_obj of None \<Rightarrow> True | Some m \<Rightarrow> idempotent m) \<longrightarrow> st' = st)"
proof (induction imap arbitrary: st res st')
  case Nil
  then show ?case by simp
next
  case (Cons a imap)
  obtain dev idxs where a: "a = (dev, idxs)" by (cases a)
  obtain res1 st1 where 1: "shard_chunks dt mode_obj r dev idxs st = (res1, st1)"
    by (cases "shard_chunks dt mode_obj r dev idxs st")
  note f1 = shard_chunks_frame [OF 1]
  show ?case
  proof (cases res1)
    case (Inl e)
    with Cons.prems a 1 f1 show ?thesis by auto
  next
    case (Inr chunks)
    obtain res2 st2 where 2: "shard_devices dt mode_obj r imap st1 = (res2, st2)"
      by (cases "shard_devices dt mode_obj r imap st1")
    have "st' = st2" using Cons.prems a 1 2 Inr by (auto split: sum.splits)
    with Cons.IH [OF 2] f1 show ?thesis by auto
  qed
qed

text \<open>
  Claim C10.  Whatever the mode, the index map and the communicators are, and whether
  the call returns or raises, every array that was in memory before the call of
  \<open>distributed_array\<close> is unchanged after it, the argument included: the identity
  values of the modes sum and prod are written to a copy made before sharding.
\<close>

theorem distributed_array_keeps_caller_memory:
  "take (length st) (snd (distributed_array nccl_available dt st array index_map mode comms)) = st"
proof (cases "MODES mode")
  case None
  then show ?thesis by (simp add: distributed_array_def)
next
  case (Some mode_obj)
  define rs where "rs = (case array of
                  ArrayLike v \<Rightarrow> (length st, st @ [v])
                | NdArray r \<Rightarrow>
                    if mode \<noteq> ''replica'' then (length st, st @ [st ! r]) else (r, st))"
  obtain r st1 where rs: "rs = (r, st1)" by (cases rs)
  have pre: "take (length st) st1 = st" "length st \<le> length st1"
    using rs by (auto simp: rs_def split: array_arg.splits if_splits)
  have fresh: "r = length st \<or> (mode_obj = None \<and> st1 = st)"
    using rs Some by (auto simp: rs_def MODES_def split: array_arg.splits if_splits)
  show ?thesis
  proof (cases "convert_index_map (nd_shape (st1 ! r)) index_map")
    case (Inl e)
    then show ?thesis
      using Some rs pre by (simp add: distributed_array_def rs_def [symmetric])
  next
    case (Inr new_index_map)
    obtain res st2 where sh: "shard_devices dt mode_obj r new_index_map st1 = (res, st2)"
      by (cases "shard_devices dt mode_obj r new_index_map st1")
    note fr = shard_devices_frame [OF sh]
    have out: "snd (distributed_array nccl_available dt st array index_map mode comms) = st2"
      using Some rs Inr sh
      by (auto simp: distributed_array_def rs_def [symmetric] split: sum.splits)
    have "take (length st) st2 = take (length st) st1"
    proof (rule nth_equalityI)
      show "length (take (length st) st2) = length (take (length st) st1)" using fr by simp
    next
      fix k assume "k < length (take (length st) st2)"
      then have k: "k < length st" by simp
      show "take (length st) st2 ! k = take (length st) st1 ! k"
      proof (cases "k = r")
        case True
        then have "st2 = st1" using fresh fr k by auto
        then show ?thesis by simp
      next
        case False
        then show ?thesis using fr k by simp
      qed
    qed
    then show ?thesis using out pre by simp
  qed
qed

text \<open>The theorem for the vector \<^verbatim>\<open>[5, 7]\<close> sharded in the mode \<^verbatim>\<open>sum\<close>.\<close>

theorem distributed_array_keeps_caller_memory_witness:
  "snd (distributed_array True int64_dtype [vec57] (NdArray 0) both_devices ''sum'' None) ! 0
     = vec57"
proof -
  have "take (length [vec57])
      (snd (distributed_array True int64_dtype [vec57] (NdArray 0) both_devices ''sum'' None))
      = [vec57]"
    by (rule distributed_array_keeps_caller_memory)
  then have "take (length [vec57])
      (snd (distributed_array True int64_dtype [vec57] (NdArray 0) both_devices ''sum'' None)) ! 0
      = [vec57] ! 0" by (rule arg_cong)
  then show ?thesis by simp
qed

section \<open>Applying one chunk onto another\<close>

lemma emap_ex:
  "(\<And>k. k < length xs \<Longrightarrow> \<exists>y. f (xs ! k) = Inr y \<and> P y)
    \<Longrightarrow> \<exists>ys. emap f xs = Inr ys \<and> list_all P ys"
proof (induction xs)
  case Nil
  then show ?case by simp
next
  case (Cons x xs)
  have "\<exists>y. f x = Inr y \<and> P y" using Cons.prems [of 0] by simp
  then obtain y where y: "f x = Inr y" "P y" by blast
  have "\<And>k. k < length xs \<Longrightarrow> \<exists>y. f (xs ! k) = Inr y \<and> P y"
    using Cons.prems [of "Suc k" for k] by simp
  from Cons.IH [OF this] obtain ys where "emap f xs = Inr ys" "list_all P ys" by blast
  with y show ?case by simp
qed

lemma length_zip3: "length (zip3 xs ys zs) = min (length xs) (min (length ys) (length zs))"
  by (induction xs ys zs rule: zip3.induct) simp_all

lemma nth_zip3:
  "k < length xs \<Longrightarrow> k < length ys \<Longrightarrow> k < length zs
    \<Longrightarrow> zip3 xs ys zs ! k = (xs ! k, ys ! k, zs ! k)"
proof (induction xs ys zs arbitrary: k rule: zip3.induct)
  case (1 x xs y ys z zs)
  then show ?case by (cases k) simp_all
qed simp_all

lemma slice_intersection_Some:
  assumes r: "slice_intersection a b len = Inr (Some c)"
    and pa: "positive_step a" and pb: "positive_step b"
  obtains as ae sa bs be sb cs where
    "slice_indices a len = Inr (as, ae, sa)" "slice_indices b len = Inr (bs, be, sb)"
    "0 < sa" "0 < sb" "0 \<le> len"
    "c = Slice (Some cs) (Some (min ae be)) (Some (lcm sa sb))"
    "as \<le> cs" "bs \<le> cs" "cs < min ae be" "min ae be \<le> len" "0 \<le> as" "0 \<le> bs"
    "(cs - as) mod sa = 0" "(cs - bs) mod sb = 0"
proof -
  have len: "0 \<le> len"
  proof (rule ccontr)
    assume "\<not> 0 \<le> len"
    then have "slice_indices a len = Inl ValueError" by (simp add: slice_indices_def Let_def)
    then show False using r by (simp add: slice_intersection_def ebind_def)
  qed
  obtain as ae sa where ia: "slice_indices a len = Inr (as, ae, sa)"
    and ra: "0 \<le> as" "as \<le> len" "0 \<le> ae" "ae \<le> len" and sa: "0 < sa"
    using slice_indices_positive [OF len pa] by blast
  obtain bs be sb where ib: "slice_indices b len = Inr (bs, be, sb)"
    and rb: "0 \<le> bs" "bs \<le> len" "0 \<le> be" "be \<le> len" and sb: "0 < sb"
    using slice_indices_positive [OF len pb] by blast
  have cg: "(bs - as) mod gcd sa sb = 0"
    using slice_intersection_incongruent(1) [OF ia ib sa sb] r by auto
  obtain cs where asc: "as \<le> cs" and bsc: "bs \<le> cs"
    and eqv: "\<And>i. (as \<le> i \<and> (i - as) mod sa = 0 \<and> bs \<le> i \<and> (i - bs) mod sb = 0)
               \<longleftrightarrow> (cs \<le> i \<and> (i - cs) mod lcm sa sb = 0)"
    and r': "slice_intersection a b len =
         Inr (if cs < min ae be
              then Some (Slice (Some cs) (Some (min ae be)) (Some (lcm sa sb)))
              else None)"
    by (rule slice_intersection_congruent [OF ia ib sa sb cg]) (rule that)
  have lt: "cs < min ae be" using r r' by (auto split: if_splits)
  have c: "c = Slice (Some cs) (Some (min ae be)) (Some (lcm sa sb))"
    using r r' lt by simp
  have "(cs - as) mod sa = 0 \<and> (cs - bs) mod sb = 0" using eqv [of cs] by simp
  then show thesis using that [OF ia ib sa sb len c asc bsc lt] ra rb by simp
qed

lemma index_intersection_SomeD:
  assumes "index_intersection a b shape = Inr (Some isect)"
  shows "length a = length shape" and "length b = length shape"
    and "length isect = length shape"
    and "\<And>k. k < length shape
           \<Longrightarrow> slice_intersection (a ! k) (b ! k) (shape ! k) = Inr (Some (isect ! k))"
proof -
  have len: "length a = length b \<and> length b = length shape"
    using assms by (auto simp: index_intersection_def Let_def split: if_splits)
  then show la: "length a = length shape" and lb: "length b = length shape" by simp_all
  obtain result where res: "emap (\<lambda>(a, b, len). slice_intersection a b len) (zip3 a b shape)
      = Inr result" and nn: "has_no_none result" and isect: "isect = map the result"
    using assms len
    by (auto simp: index_intersection_def Let_def ebind_eq_Inr_iff split: if_splits)
  have lr: "length result = length shape"
    using emap_Inr_length [OF res] la lb by (simp add: length_zip3)
  show "length isect = length shape" using lr isect by simp
  fix k assume k: "k < length shape"
  have "(\<lambda>(a, b, len). slice_intersection a b len) (zip3 a b shape ! k) = Inr (result ! k)"
    using emap_Inr_nth [OF res] k la lb by (simp add: length_zip3)
  then have 1: "slice_intersection (a ! k) (b ! k) (shape ! k) = Inr (result ! k)"
    using k la lb by (simp add: nth_zip3)
  have "result ! k \<in> set result" using k lr by simp
  then have "result ! k \<noteq> None" using nn unfolding has_no_none_def by metis
  then have "result ! k = Some (isect ! k)" using isect k lr by auto
  then show "slice_intersection (a ! k) (b ! k) (shape ! k) = Inr (Some (isect ! k))"
    using 1 by simp
qed

lemma expand_index_ok:
  assumes vs: "valid_shape sh" and le: "length idx \<le> length sh"
    and ps: "list_all positive_step idx"
  shows "\<exists>rs. expand_index sh idx = Inr rs \<and> length rs = length sh"
proof -
  let ?full = "idx @ replicate (length sh - length idx) (Slice None None None)"
  have lf: "length ?full = length sh" using le by simp
  have pf: "list_all positive_step ?full"
    using ps by (simp add: list_all_length nth_append positive_step_def)
  have "\<exists>y. (\<lambda>(s, d). slice_indices s d) (zip ?full sh ! k) = Inr y \<and> True"
    if "k < length (zip ?full sh)" for k
  proof -
    have k: "k < length sh" using that by simp
    have "0 \<le> sh ! k" using vs k by (simp add: valid_shape_def list_all_length)
    moreover have "positive_step (?full ! k)" using pf k lf by (simp add: list_all_length)
    ultimately obtain st sp st' where "slice_indices (?full ! k) (sh ! k) = Inr (st, sp, st')"
      using slice_indices_positive by blast
    then show ?thesis using k lf by simp
  qed
  from emap_ex [where xs = "zip ?full sh" and P = "\<lambda>_. True"
      and f = "\<lambda>(s, d). slice_indices s d", OF this]
  obtain rs where rs: "emap (\<lambda>(s, d). slice_indices s d) (zip ?full sh) = Inr rs" by blast
  have "length rs = length sh" using emap_Inr_length [OF rs] lf by simp
  then show ?thesis using rs le by (simp add: expand_index_def)
qed

lemma strip_leading_ones_scalar: "strip_leading_ones n (scalar c) = scalar c"
  by (subst strip_leading_ones.simps) (simp add: scalar_def)

lemma setitem_scalar:
  assumes "expand_index (nd_shape a) idx = Inr rs"
  shows "setitem a idx (scalar c)
    = Inr (a\<lparr>nd_data := (\<lambda>p. if in_region rs p then c else nd_data a p)\<rparr>)"
proof -
  have 1: "setitem a idx (scalar c) = assign_region (\<lambda>old new. new) a idx (scalar c)"
    using assms by (simp add: setitem_def strip_leading_ones_scalar)
  have 2: "broadcastable (nd_shape (scalar c)) tsh" for tsh
    by (simp add: scalar_def broadcastable_def)
  have 3: "nd_data (scalar c) j = c" for j by (simp add: scalar_def)
  have 4: "(\<lambda>p. if in_region rs p
             then nd_data (scalar c)
                   (broadcast_index (nd_shape (scalar c)) (map range_len rs) (local_index rs p))
             else nd_data a p)
      = (\<lambda>p. if in_region rs p then c else nd_data a p)"
    by (rule ext) (simp add: 3)
  have "assign_region (\<lambda>old new. new) a idx (scalar c)
      = Inr (a\<lparr>nd_data := (\<lambda>p. if in_region rs p
             then nd_data (scalar c)
                   (broadcast_index (nd_shape (scalar c)) (map range_len rs) (local_index rs p))
             else nd_data a p)\<rparr>)"
    using assms by (simp add: assign_region_def Let_def 2)
  then show ?thesis unfolding 1 4 .
qed


section \<open>Regions of arrays\<close>

lemma in_range_local:
  assumes "in_range (st, sp, k) i"
  shows "0 \<le> (i - st) div k" and "(i - st) div k < range_len (st, sp, k)"
    and "st + (i - st) div k * k = i"
proof -
  consider (pos) "0 < k" "st \<le> i" "i < sp" "(i - st) mod k = 0"
    | (neg) "k < 0" "sp < i" "i \<le> st" "(st - i) mod (- k) = 0"
    using assms by (auto simp: in_range_def split: if_splits)
  then have "0 \<le> (i - st) div k \<and> (i - st) div k < range_len (st, sp, k)
      \<and> st + (i - st) div k * k = i"
  proof cases
    case pos
    have 1: "0 \<le> (i - st) div k" using pos by (simp add: pos_imp_zdiv_nonneg_iff)
    have "(i - st) div k \<le> (sp - st - 1) div k"
      using pos by (intro zdiv_mono1) simp_all
    then have 2: "(i - st) div k < range_len (st, sp, k)" using pos by (simp add: range_len_def)
    have "k dvd (i - st)" using pos(4) by (simp only: mod_eq_0_iff_dvd)
    then have "(i - st) div k * k = i - st" by (rule dvd_div_mult_self)
    then show ?thesis using 1 2 by simp
  next
    case neg
    have e: "(i - st) div k = (st - i) div (- k)"
      using div_minus_minus [of "st - i" "- k"] by simp
    have 1: "0 \<le> (st - i) div (- k)" using neg by (simp add: pos_imp_zdiv_nonneg_iff)
    have "(st - i) div (- k) \<le> (st - sp - 1) div (- k)"
      using neg by (intro zdiv_mono1) simp_all
    then have 2: "(st - i) div (- k) < range_len (st, sp, k)"
      using neg by (simp add: range_len_def)
    have "(- k) dvd (st - i)" using neg(4) by (simp only: mod_eq_0_iff_dvd)
    then have "(st - i) div (- k) * (- k) = st - i" by (rule dvd_div_mult_self)
    then have "(st - i) div (- k) * k = i - st" by (simp add: algebra_simps)
    then show ?thesis using 1 2 e by simp
  qed
  then show "0 \<le> (i - st) div k" and "(i - st) div k < range_len (st, sp, k)"
    and "st + (i - st) div k * k = i" by simp_all
qed

lemma in_region_local:
  assumes "in_region rs p"
  shows "in_bounds (map range_len rs) (local_index rs p)"
    and "global_index rs (local_index rs p) = p"
proof -
  have "list_all2 in_range rs p" using assms by (simp add: in_region_def)
  then have "in_bounds (map range_len rs) (local_index rs p)
      \<and> global_index rs (local_index rs p) = p"
  proof (induction rule: list_all2_induct)
    case Nil
    then show ?case by (simp add: in_bounds_def local_index_def global_index_def)
  next
    case (Cons r rs i p)
    obtain st sp k where r: "r = (st, sp, k)" by (cases r)
    note l = in_range_local [OF Cons.hyps(1) [unfolded r]]
    show ?case
      using Cons.IH l by (simp add: in_bounds_def local_index_def global_index_def r)
  qed
  then show "in_bounds (map range_len rs) (local_index rs p)"
    and "global_index rs (local_index rs p) = p" by simp_all
qed

lemma broadcast_index_id: "in_bounds sh j \<Longrightarrow> broadcast_index sh sh j = j"
proof -
  assume "in_bounds sh j"
  then have "list_all2 (\<lambda>i d. 0 \<le> i \<and> i < d) j sh" by (simp add: in_bounds_def)
  then have "map2 (\<lambda>dv i. if dv = 1 then 0 else i) sh j = j"
    by (induction rule: list_all2_induct) auto
  then show ?thesis by (simp add: broadcast_index_def)
qed

lemma broadcastable_refl: "broadcastable sh sh"
  by (auto simp: broadcastable_def list_all_iff in_set_zip)

lemma strip_leading_ones_id: "length (nd_shape v) \<le> n \<Longrightarrow> strip_leading_ones n v = v"
  by (subst strip_leading_ones.simps) (auto split: list.splits)

lemma assign_region_same_shape:
  assumes rs: "expand_index (nd_shape a) idx = Inr rs"
    and sh: "nd_shape v = map range_len rs"
  shows "\<exists>a'. assign_region f a idx v = Inr a' \<and> nd_shape a' = nd_shape a
    \<and> (\<forall>p. nd_data a' p = (if in_region rs p then f (nd_data a p) (nd_data v (local_index rs p))
                            else nd_data a p))"
proof -
  have e: "assign_region f a idx v = Inr (a\<lparr>nd_data := (\<lambda>p.
             if in_region rs p
             then f (nd_data a p)
                   (nd_data v (broadcast_index (nd_shape v) (map range_len rs) (local_index rs p)))
             else nd_data a p)\<rparr>)"
    by (simp add: assign_region_def rs Let_def sh broadcastable_refl)
  have "broadcast_index (nd_shape v) (map range_len rs) (local_index rs p) = local_index rs p"
    if "in_region rs p" for p
    unfolding sh by (rule broadcast_index_id) (rule in_region_local(1) [OF that])
  then show ?thesis unfolding e by simp
qed

lemma setitem_same_shape:
  assumes rs: "expand_index (nd_shape a) idx = Inr rs"
    and sh: "nd_shape v = map range_len rs"
  shows "\<exists>a'. setitem a idx v = Inr a' \<and> nd_shape a' = nd_shape a
    \<and> (\<forall>p. nd_data a' p = (if in_region rs p then nd_data v (local_index rs p)
                            else nd_data a p))"
proof -
  have "strip_leading_ones (length rs) v = v"
    by (rule strip_leading_ones_id) (simp add: sh)
  then have "setitem a idx v = assign_region (\<lambda>old new. new) a idx v"
    by (simp add: setitem_def rs)
  then show ?thesis using assign_region_same_shape [OF rs sh, of "\<lambda>old new. new"] by simp
qed

lemma fold_chunks_replica:
  assumes "list_all (chunk_holds A) cs" and "nd_shape np = nd_shape A"
  shows "\<exists>a. fold_chunks dt None np cs = Inr a \<and> nd_shape a = nd_shape A
    \<and> (\<forall>p. nd_data a p
          = (if list_ex (\<lambda>c. index_contains (nd_shape A) (index c) p) cs then nd_data A p
             else nd_data np p))"
  using assms
proof (induction cs arbitrary: np)
  case Nil
  then show ?case by simp
next
  case (Cons c cs)
  from Cons.prems obtain rs where rs: "expand_index (nd_shape A) (index c) = Inr rs"
    and sh: "nd_shape (data c) = map range_len rs"
    and val: "\<And>p. in_region rs p \<Longrightarrow> nd_data (data c) (local_index rs p) = nd_data A p"
    by (auto simp: chunk_holds_def split: sum.splits)
  have rs': "expand_index (nd_shape np) (index c) = Inr rs" using rs Cons.prems by simp
  obtain np' where s: "setitem np (index c) (data c) = Inr np'"
    and sh': "nd_shape np' = nd_shape np"
    and d': "\<And>p. nd_data np' p = (if in_region rs p then nd_data (data c) (local_index rs p)
                            else nd_data np p)"
    using setitem_same_shape [OF rs' sh] by blast
  have "list_all (chunk_holds A) cs" "nd_shape np' = nd_shape A"
    using Cons.prems sh' by simp_all
  from Cons.IH [OF this] obtain a where a: "fold_chunks dt None np' cs = Inr a"
    and sa: "nd_shape a = nd_shape A"
    and da: "\<And>p. nd_data a p
          = (if list_ex (\<lambda>c. index_contains (nd_shape A) (index c) p) cs then nd_data A p
             else nd_data np' p)" by blast
  have "fold_chunks dt None np (c # cs) = Inr a" using s a by simp
  moreover have "nd_data a p
          = (if list_ex (\<lambda>c. index_contains (nd_shape A) (index c) p) (c # cs) then nd_data A p
             else nd_data np p)" for p
    using da [of p] d' [of p] val [of p] by (simp add: index_contains_def rs)
  ultimately show ?case using sa by blast
qed

section \<open>Sharding a host array and materializing it\<close>

lemma convert_axis_ok: "convert_axis d e = Inr s \<Longrightarrow> positive_step s"
  by (cases e)
    (auto simp: convert_axis_def positive_step_def ebind_eq_Inr_iff split: if_splits)

lemma convert_chunk_idx_ok:
  assumes "convert_chunk_idx_to_slices shape idx = Inr sl"
  shows "length sl = length shape" and "list_all positive_step sl"
proof -
  define es where "es = (case idx of IdxTuple es \<Rightarrow> es | IdxSingle e \<Rightarrow> [e])"
  define full where "full = es @ replicate (length shape - length es) (IdxSlice (Slice None None None))"
  have le: "length es \<le> length shape" and
    em: "emap (\<lambda>(d, e). convert_axis d e) (zip shape full) = Inr sl"
    using assms
    by (auto simp: convert_chunk_idx_to_slices_def Let_def es_def full_def split: if_splits)
  have lf: "length full = length shape" using le by (simp add: full_def)
  show l: "length sl = length shape" using emap_Inr_length [OF em] lf by simp
  have "positive_step (sl ! k)" if "k < length sl" for k
  proof -
    have "(\<lambda>(d, e). convert_axis d e) (zip shape full ! k) = Inr (sl ! k)"
      using emap_Inr_nth [OF em] that l lf by simp
    then have "convert_axis (shape ! k) (full ! k) = Inr (sl ! k)" using that l lf by simp
    then show ?thesis by (rule convert_axis_ok)
  qed
  then show "list_all positive_step sl" by (simp add: list_all_length)
qed

lemma sort_idxs_set: "sort_idxs shape idxs = Inr r \<Longrightarrow> set r = set idxs"
proof -
  assume "sort_idxs shape idxs = Inr r"
  then obtain keys where
    k: "emap (\<lambda>slices. emap (\<lambda>(s, l). slice_indices s l) (zip slices shape)) idxs = Inr keys"
    and r: "r = map snd (sort_key fst (zip keys idxs))"
    by (auto simp: sort_idxs_def ebind_eq_Inr_iff)
  have "length keys = length idxs" using emap_Inr_length [OF k] .
  then have "map snd (zip keys idxs) = idxs" by simp
  moreover have "set r = set (map snd (zip keys idxs))" unfolding r by simp
  ultimately show ?thesis by simp
qed

lemma convert_device_idxs_ok:
  assumes "convert_device_idxs shape idxs = Inr r"
  shows "list_all (chunk_index_ok shape) r"
proof -
  define l where "l = (case idxs of IdxList l \<Rightarrow> l | IdxOne i \<Rightarrow> [i])"
  from assms obtain c where c: "emap (convert_chunk_idx_to_slices shape) l = Inr c"
    and s: "sort_idxs shape c = Inr r"
    by (auto simp: convert_device_idxs_def Let_def l_def ebind_eq_Inr_iff)
  have "chunk_index_ok shape x" if "x \<in> set c" for x
  proof -
    from that have "\<exists>k. k < length c \<and> c ! k = x" by (simp add: in_set_conv_nth)
    then obtain k where k: "k < length c" "c ! k = x" by blast
    have "convert_chunk_idx_to_slices shape (l ! k) = Inr x"
      using emap_Inr_nth [OF c] k emap_Inr_length [OF c] by simp
    from convert_chunk_idx_ok [OF this] show ?thesis by (simp add: chunk_index_ok_def)
  qed
  then show ?thesis using sort_idxs_set [OF s] by (simp add: list_all_iff)
qed

lemma convert_index_map_ok:
  assumes "convert_index_map shape index_map = Inr nim"
  shows "list_all (chunk_index_ok shape) (concat (map snd nim))"
proof -
  have "list_all (chunk_index_ok shape) (snd x)" if "x \<in> set nim" for x
  proof -
    from that have "\<exists>k. k < length nim \<and> nim ! k = x" by (simp add: in_set_conv_nth)
    then obtain k where k: "k < length nim" "nim ! k = x" by blast
    have e: "emap (\<lambda>(dev, idxs). ebind (convert_device_idxs shape idxs) (\<lambda>idxs'. Inr (dev, idxs')))
        index_map = Inr nim" using assms by (simp add: convert_index_map_def)
    obtain dev idxs where di: "index_map ! k = (dev, idxs)" by (cases "index_map ! k")
    have "ebind (convert_device_idxs shape idxs) (\<lambda>idxs'. Inr (dev, idxs')) = Inr x"
      using emap_Inr_nth [OF e, of k] k emap_Inr_length [OF e] di by simp
    then obtain r where "convert_device_idxs shape idxs = Inr r" "x = (dev, r)"
      by (auto simp: ebind_eq_Inr_iff)
    then show ?thesis using convert_device_idxs_ok by auto
  qed
  then show ?thesis by (auto simp: list_all_iff)
qed

lemma expand_index_chunk_ok:
  assumes "valid_shape shape" and "chunk_index_ok shape idx"
  shows "\<exists>rs. expand_index shape idx = Inr rs \<and> length rs = length shape"
  using expand_index_ok [OF assms(1)] assms(2) by (simp add: chunk_index_ok_def)




lemma apply_updates_none: "updates c = [] \<Longrightarrow> apply_updates dt c mode = Inr c"
  by (simp add: apply_updates_def)

lemma asnumpy_replica:
  assumes m: "d_mode d = None"
    and h: "list_all (chunk_holds A) (chunks_list_of (d_chunks_map d))"
    and u: "list_all (\<lambda>c. updates c = []) (chunks_list_of (d_chunks_map d))"
    and s: "d_shape d = nd_shape A" and n: "nd_shape A \<noteq> []"
  shows "\<exists>a. asnumpy uninit dt d = Inr a \<and> nd_shape a = nd_shape A
    \<and> (\<forall>p. nd_data a p
          = (if list_ex (\<lambda>idx. index_contains (nd_shape A) idx p)
                  (map index (chunks_list_of (d_chunks_map d)))
             then nd_data A p else uninit p))"
proof -
  let ?cl = "chunks_list_of (d_chunks_map d)"
  have "emap (\<lambda>chunk. apply_updates dt chunk (d_mode d)) ?cl = Inr (map (\<lambda>c. c) ?cl)"
    by (rule emap_map_Inr) (use u in \<open>simp add: apply_updates_none list_all_iff\<close>)
  then have e: "asnumpy uninit dt d = fold_chunks dt None (numpy_empty uninit (nd_shape A)) ?cl"
    using m s n by (simp add: asnumpy_def atleast_1d_def numpy_empty_def)
  have "nd_shape (numpy_empty uninit (nd_shape A)) = nd_shape A" by (simp add: numpy_empty_def)
  from fold_chunks_replica [OF h this, of dt]
  show ?thesis unfolding e by (simp add: numpy_empty_def list_ex_iff cong: if_cong)
qed

lemma new_DistributedArray_ok:
  assumes "comms_available nccl_available comms"
  shows "\<exists>cs. new_DistributedArray nccl_available shape cm mode comms
    = Inr \<lparr>d_shape = shape, d_chunks_map = cm, d_mode = mode, d_comms = cs\<rparr>"
  using assms
  by (auto simp: new_DistributedArray_def comms_available_def split: option.splits list.splits)




section \<open>Sum mode on a partition, then replica mode\<close>

subsection \<open>Cells and regions\<close>

lemma in_bounds_ndindex: "in_bounds sh p \<Longrightarrow> p \<in> set (ndindex sh)"
proof -
  assume "in_bounds sh p"
  then have "list_all2 (\<lambda>i d. 0 \<le> i \<and> i < d) p sh" by (simp add: in_bounds_def)
  then show ?thesis
  proof (induction rule: list_all2_induct)
    case Nil
    then show ?case by simp
  next
    case (Cons i p d sh)
    then show ?case by auto
  qed
qed

lemma slice_indices_in_range:
  assumes "slice_indices s d = Inr r" and "in_range r i"
  shows "0 \<le> i \<and> i < d"
proof -
  obtain st sp k where r: "r = (st, sp, k)" by (cases r)
  have d0: "0 \<le> d" using assms(1) by (auto simp: slice_indices_def Let_def split: if_splits)
  show ?thesis
  proof (cases "0 < k")
    case True
    then have "0 \<le> st" "sp \<le> d"
      using assms(1) d0 unfolding r
      by (auto simp: slice_indices_def Let_def split: if_splits option.splits)
    then show ?thesis using assms(2) True by (simp add: r in_range_def)
  next
    case False
    then have k: "k < 0" using assms(2) by (auto simp: r in_range_def split: if_splits)
    then have "- 1 \<le> sp" "st \<le> d - 1"
      using assms(1) d0 unfolding r
      by (auto simp: slice_indices_def Let_def split: if_splits option.splits)
    then show ?thesis using assms(2) k by (simp add: r in_range_def)
  qed
qed

lemma expand_index_nth:
  assumes "expand_index shape idx = Inr rs"
  shows "length rs = length shape"
    and "\<And>k. k < length shape \<Longrightarrow>
      slice_indices ((idx @ replicate (length shape - length idx) (Slice None None None)) ! k)
        (shape ! k) = Inr (rs ! k)"
proof -
  let ?full = "idx @ replicate (length shape - length idx) (Slice None None None)"
  have le: "length idx \<le> length shape"
    and em: "emap (\<lambda>(s, d). slice_indices s d) (zip ?full shape) = Inr rs"
    using assms by (auto simp: expand_index_def split: if_splits)
  have lf: "length ?full = length shape" using le by simp
  show l: "length rs = length shape" using emap_Inr_length [OF em] lf by simp
  fix k assume k: "k < length shape"
  have "(\<lambda>(s, d). slice_indices s d) (zip ?full shape ! k) = Inr (rs ! k)"
    using emap_Inr_nth [OF em, of k] k lf by simp
  then show "slice_indices (?full ! k) (shape ! k) = Inr (rs ! k)" using k lf by simp
qed

lemma in_region_in_bounds:
  assumes e: "expand_index shape idx = Inr rs" and r: "in_region rs p"
  shows "in_bounds shape p"
proof -
  note n = expand_index_nth [OF e]
  have lp: "length p = length rs" "\<And>k. k < length rs \<Longrightarrow> in_range (rs ! k) (p ! k)"
    using r by (auto simp: in_region_def list_all2_conv_all_nth)
  have "0 \<le> p ! k \<and> p ! k < shape ! k" if "k < length p" for k
    using slice_indices_in_range [OF n(2) [of k] lp(2) [of k]] that lp(1) n(1) by simp
  then show ?thesis using lp(1) n(1) by (simp add: in_bounds_def list_all2_conv_all_nth)
qed

lemma index_contains_ndindex: "index_contains shape idx p \<Longrightarrow> p \<in> set (ndindex shape)"
  by (auto simp: index_contains_def split: sum.splits
      intro: in_bounds_ndindex in_region_in_bounds)

lemma filter_two:
  assumes "length (filter P xs) \<le> 1" and "i < j" and "j < length xs"
    and "P (xs ! i)" and "P (xs ! j)"
  shows False
proof -
  have "{i, j} \<subseteq> {k. k < length xs \<and> P (xs ! k)}" using assms by auto
  moreover have "finite {k. k < length xs \<and> P (xs ! k)}" by simp
  ultimately have "card {i, j} \<le> card {k. k < length xs \<and> P (xs ! k)}" by (rule card_mono [rotated])
  moreover have "card {i, j} = 2" using assms(2) by simp
  ultimately show False using assms(1) by (simp add: length_filter_conv_card)
qed

lemma disjoint_regionsD:
  assumes "disjoint_regions shape idxs" and "i < j" and "j < length idxs"
    and "index_contains shape (idxs ! i) p"
  shows "\<not> index_contains shape (idxs ! j) p"
proof
  assume c: "index_contains shape (idxs ! j) p"
  have "p \<in> set (ndindex shape)" using c by (rule index_contains_ndindex)
  then have "length (filter (\<lambda>idx. index_contains shape idx p) idxs) \<le> 1"
    using assms(1) by (simp add: disjoint_regions_def list_all_iff)
  from filter_two [OF this assms(2,3,4) c] show False .
qed

subsection \<open>Regions without a common cell do not intersect\<close>

lemma slice_intersection_total:
  assumes len: "0 \<le> len" and pa: "positive_step a" and pb: "positive_step b"
  shows "\<exists>r. slice_intersection a b len = Inr r"
proof -
  obtain as ae sa where ia: "slice_indices a len = Inr (as, ae, sa)" and sa: "0 < sa"
    using slice_indices_positive [OF len pa] by blast
  obtain bs be sb where ib: "slice_indices b len = Inr (bs, be, sb)" and sb: "0 < sb"
    using slice_indices_positive [OF len pb] by blast
  show ?thesis
  proof (cases "(bs - as) mod gcd sa sb = 0")
    case False
    then show ?thesis using slice_intersection_incongruent(1) [OF ia ib sa sb] by blast
  next
    case True
    obtain c where "slice_intersection a b len =
           Inr (if c < min ae be
                then Some (Slice (Some c) (Some (min ae be)) (Some (lcm sa sb)))
                else None)"
      by (rule slice_intersection_congruent [OF ia ib sa sb True])
    then show ?thesis by blast
  qed
qed

lemma index_intersection_total:
  assumes oa: "chunk_index_ok shape a" and ob: "chunk_index_ok shape b"
    and vs: "valid_shape shape"
  shows "\<exists>r. index_intersection a b shape = Inr r"
proof -
  have la: "length a = length shape" and lb: "length b = length shape"
    and pa: "list_all positive_step a" and pb: "list_all positive_step b"
    using oa ob by (simp_all add: chunk_index_ok_def)
  have "\<exists>y. (\<lambda>(a, b, len). slice_intersection a b len) (zip3 a b shape ! k) = Inr y \<and> True"
    if "k < length (zip3 a b shape)" for k
  proof -
    have k: "k < length shape" using that la lb by (simp add: length_zip3)
    have "0 \<le> shape ! k" using vs k by (simp add: valid_shape_def list_all_length)
    moreover have "positive_step (a ! k)" "positive_step (b ! k)"
      using pa pb k la lb by (simp_all add: list_all_length)
    ultimately have "\<exists>r. slice_intersection (a ! k) (b ! k) (shape ! k) = Inr r"
      by (rule slice_intersection_total)
    then show ?thesis using k la lb by (simp add: nth_zip3)
  qed
  from emap_ex [where xs = "zip3 a b shape" and P = "\<lambda>_. True"
      and f = "\<lambda>(a, b, len). slice_intersection a b len", OF this]
  obtain res where "emap (\<lambda>(a, b, len). slice_intersection a b len) (zip3 a b shape) = Inr res"
    by blast
  then show ?thesis using la lb by (simp add: index_intersection_def)
qed

lemma expand_index_full:
  assumes l: "length idx = length shape"
    and s: "\<And>k. k < length shape \<Longrightarrow> \<exists>r. slice_indices (idx ! k) (shape ! k) = Inr r"
  shows "\<exists>rs. expand_index shape idx = Inr rs \<and> length rs = length shape
    \<and> (\<forall>k<length shape. slice_indices (idx ! k) (shape ! k) = Inr (rs ! k))"
proof -
  have "\<exists>y. (\<lambda>(s, d). slice_indices s d) (zip idx shape ! k) = Inr y \<and> True"
    if "k < length (zip idx shape)" for k
    using s [of k] that l by simp
  from emap_ex [where xs = "zip idx shape" and P = "\<lambda>_. True"
      and f = "\<lambda>(s, d). slice_indices s d", OF this]
  obtain rs where rs: "emap (\<lambda>(s, d). slice_indices s d) (zip idx shape) = Inr rs" by blast
  have e: "expand_index shape idx = Inr rs" using rs l by (simp add: expand_index_def)
  have lr: "length rs = length shape" using emap_Inr_length [OF rs] l by simp
  have "slice_indices (idx ! k) (shape ! k) = Inr (rs ! k)" if "k < length shape" for k
    using emap_Inr_nth [OF rs, of k] that l by simp
  then show ?thesis using e lr by blast
qed

lemma index_intersection_common_cell:
  assumes ii: "index_intersection a b shape = Inr (Some isect)"
    and pa: "list_all positive_step a" and pb: "list_all positive_step b"
  shows "\<exists>p. index_contains shape a p \<and> index_contains shape b p"
proof -
  note d = index_intersection_SomeD [OF ii]
  have ax: "\<exists>c ra rb. slice_indices (a ! k) (shape ! k) = Inr ra
      \<and> slice_indices (b ! k) (shape ! k) = Inr rb \<and> in_range ra c \<and> in_range rb c"
    if "k < length shape" for k
  proof -
    have p: "positive_step (a ! k)" "positive_step (b ! k)"
      using pa pb that d by (simp_all add: list_all_length)
    have si: "slice_intersection (a ! k) (b ! k) (shape ! k) = Inr (Some (isect ! k))"
      using d(4) that by simp
    show ?thesis
    proof (rule slice_intersection_Some [OF si p])
      fix as ae sa bs be sb cs
      assume "slice_indices (a ! k) (shape ! k) = Inr (as, ae, sa)"
        "slice_indices (b ! k) (shape ! k) = Inr (bs, be, sb)"
        "0 < sa" "0 < sb" "as \<le> cs" "bs \<le> cs" "cs < min ae be"
        "(cs - as) mod sa = 0" "(cs - bs) mod sb = 0"
      then show ?thesis by (auto simp: in_range_def)
    qed
  qed
  then obtain f where f: "\<And>k. k < length shape \<Longrightarrow>
      \<exists>ra rb. slice_indices (a ! k) (shape ! k) = Inr ra
      \<and> slice_indices (b ! k) (shape ! k) = Inr rb \<and> in_range ra (f k) \<and> in_range rb (f k)"
    by metis
  define p where "p = map f [0..<length shape]"
  obtain rsa where ea: "expand_index shape a = Inr rsa" and la: "length rsa = length shape"
    and na: "\<And>k. k < length shape \<Longrightarrow> slice_indices (a ! k) (shape ! k) = Inr (rsa ! k)"
    using expand_index_full [of a shape] d(1) f by blast
  obtain rsb where eb: "expand_index shape b = Inr rsb" and lb: "length rsb = length shape"
    and nb: "\<And>k. k < length shape \<Longrightarrow> slice_indices (b ! k) (shape ! k) = Inr (rsb ! k)"
    using expand_index_full [of b shape] d(2) f by blast
  have "in_range (rsa ! k) (p ! k) \<and> in_range (rsb ! k) (p ! k)" if "k < length shape" for k
    using f [OF that] na [OF that] nb [OF that] that by (auto simp: p_def)
  then have "in_region rsa p" "in_region rsb p"
    using la lb by (simp_all add: in_region_def list_all2_conv_all_nth p_def)
  then show ?thesis using ea eb by (auto simp: index_contains_def)
qed

lemma index_intersection_disjoint:
  assumes oa: "chunk_index_ok shape a" and ob: "chunk_index_ok shape b"
    and vs: "valid_shape shape"
    and dj: "\<And>p. index_contains shape a p \<Longrightarrow> \<not> index_contains shape b p"
  shows "index_intersection a b shape = Inr None"
proof -
  obtain r where r: "index_intersection a b shape = Inr r"
    using index_intersection_total [OF oa ob vs] by blast
  show ?thesis
  proof (cases r)
    case None
    then show ?thesis using r by simp
  next
    case (Some isect)
    have "\<exists>p. index_contains shape a p \<and> index_contains shape b p"
      by (rule index_intersection_common_cell [of a b shape isect])
        (use r Some oa ob in \<open>simp_all add: chunk_index_ok_def\<close>)
    then show ?thesis using dj by blast
  qed
qed

subsection \<open>The two passes over chunks that do not intersect\<close>

lemma forward_inner_noop:
  assumes "i < length cl"
    and "\<And>j. j \<in> set js \<Longrightarrow> j < length cl
      \<and> index_intersection (index (cl ! i)) (index (cl ! j)) shape = Inr None"
  shows "forward_inner dt comms m shape i js cl = Inr cl"
  using assms(2)
proof (induction js)
  case Nil
  then show ?case by simp
next
  case (Cons j js)
  have "apply_and_update_chunks dt comms m shape (cl ! i) (cl ! j) = Inr (cl ! i, cl ! j)"
    using Cons.prems [of j] by (simp add: apply_and_update_chunks_def)
  moreover have "cl[i := cl ! i, j := cl ! j] = cl" by simp
  moreover have "forward_inner dt comms m shape i js cl = Inr cl"
    by (rule Cons.IH) (use Cons.prems in simp)
  ultimately show ?case by simp
qed

lemma forward_pass_noop:
  assumes u: "\<And>i. i \<in> set is \<Longrightarrow> i < length cl \<and> updates (cl ! i) = []"
    and n: "\<And>i j. i < length cl \<Longrightarrow> j < length cl \<Longrightarrow> i \<noteq> j
      \<Longrightarrow> index_intersection (index (cl ! i)) (index (cl ! j)) shape = Inr None"
  shows "forward_pass dt comms m shape is cl = Inr cl"
  using u
proof (induction "is")
  case Nil
  then show ?case by simp
next
  case (Cons i "is")
  have i: "i < length cl" "updates (cl ! i) = []" using Cons.prems [of i] by simp_all
  have 1: "apply_updates dt (cl ! i) (Some m) = Inr (cl ! i)"
    using i by (simp add: apply_updates_none)
  have 2: "forward_inner dt comms m shape i [i + 1..<length cl] cl = Inr cl"
    by (rule forward_inner_noop [OF i(1)]) (use n i in auto)
  have 3: "forward_pass dt comms m shape is cl = Inr cl"
    by (rule Cons.IH) (use Cons.prems in simp)
  show ?case using 1 2 3 by simp
qed

lemma backward_inner_noop:
  assumes "updates (cl ! j) = []"
    and "\<And>i. i \<in> set is \<Longrightarrow> i < length cl
      \<and> index_intersection (index (cl ! j)) (index (cl ! i)) shape = Inr None"
  shows "backward_inner dt comms shape j is cl = Inr cl"
  using assms(2)
proof (induction "is")
  case Nil
  then show ?case by simp
next
  case (Cons i "is")
  have "copy_on_intersection dt comms shape (cl ! j) (cl ! i) = Inr (cl ! i)"
    using Cons.prems [of i] assms(1) by (simp add: copy_on_intersection_def)
  moreover have "cl[i := cl ! i] = cl" by simp
  moreover have "backward_inner dt comms shape j is cl = Inr cl"
    by (rule Cons.IH) (use Cons.prems in simp)
  ultimately show ?case by simp
qed

lemma backward_pass_noop:
  assumes u: "\<And>j. j \<in> set js \<Longrightarrow> j < length cl \<and> updates (cl ! j) = []"
    and n: "\<And>i j. i < length cl \<Longrightarrow> j < length cl \<Longrightarrow> i \<noteq> j
      \<Longrightarrow> index_intersection (index (cl ! i)) (index (cl ! j)) shape = Inr None"
  shows "backward_pass dt comms shape js cl = Inr cl"
  using u
proof (induction js)
  case Nil
  then show ?case by simp
next
  case (Cons j js)
  have j: "j < length cl" "updates (cl ! j) = []" using Cons.prems [of j] by simp_all
  have 1: "apply_updates dt (cl ! j) None = Inr (cl ! j)"
    using j by (simp add: apply_updates_none)
  have 2: "backward_inner dt comms shape j [0..<j] cl = Inr cl"
    by (rule backward_inner_noop [OF j(2)]) (use n j in auto)
  have 3: "backward_pass dt comms shape js cl = Inr cl"
    by (rule Cons.IH) (use Cons.prems in simp)
  show ?case using 1 2 3 by simp
qed

lemma with_chunks_list_id: "with_chunks_list cm (chunks_list_of cm) = cm"
  by (induction cm) (auto simp: chunks_list_of_def)

lemma chunk_copy_id: "chunk_copy c = c"
  by (simp add: chunk_copy_def)

lemma copy_chunks_map_id: "copy_chunks_map d = d_chunks_map d"
  by (simp add: copy_chunks_map_def chunk_copy_id map_idI split_beta)

lemma replica_mode_chunks_map_noop:
  assumes u: "list_all (\<lambda>c. updates c = []) (chunks_list_of (d_chunks_map d))"
    and n: "\<And>i j. i < length (chunks_list_of (d_chunks_map d))
      \<Longrightarrow> j < length (chunks_list_of (d_chunks_map d)) \<Longrightarrow> i \<noteq> j
      \<Longrightarrow> index_intersection (index (chunks_list_of (d_chunks_map d) ! i))
            (index (chunks_list_of (d_chunks_map d) ! j)) (d_shape d) = Inr None"
  shows "replica_mode_chunks_map dt d = Inr (d_chunks_map d)"
proof (cases "d_mode d")
  case None
  then show ?thesis by (simp add: replica_mode_chunks_map_def copy_chunks_map_id)
next
  case (Some m)
  let ?cl = "chunks_list_of (d_chunks_map d)"
  have uu: "i < length ?cl \<and> updates (?cl ! i) = []" if "i < length ?cl" for i
    using u that by (simp add: list_all_length)
  have f: "forward_pass dt (d_comms d) m (d_shape d) [0..<length ?cl] ?cl = Inr ?cl"
    by (rule forward_pass_noop) (use uu n in auto)
  have b: "backward_pass dt (d_comms d) (d_shape d) (rev [0..<length ?cl]) ?cl = Inr ?cl"
    by (rule backward_pass_noop) (use uu n in auto)
  show ?thesis
    using Some f b
    by (simp add: replica_mode_chunks_map_def copy_chunks_map_id all_reduce_intersections_def
        Let_def with_chunks_list_id)
qed

subsection \<open>Sharding in an operator mode\<close>

lemma filter_le1_prefix:
  assumes "length (filter P (dn @ x # xs)) \<le> 1" and "P x"
  shows "\<forall>y\<in>set dn. \<not> P y"
proof -
  have "length (filter P dn) = 0" using assms by simp
  then show ?thesis by (simp add: filter_empty_conv)
qed

lemma shard_chunks_op:
  assumes r: "r < length st"
    and sh: "nd_shape (st ! r) = nd_shape A" and vs: "valid_shape (nd_shape A)"
    and inv: "\<And>p. (\<forall>idx\<in>set dn. \<not> index_contains (nd_shape A) idx p)
                \<Longrightarrow> nd_data (st ! r) p = nd_data A p"
    and ok: "list_all (chunk_index_ok (nd_shape A)) idxs"
    and dj: "\<And>p. length (filter (\<lambda>idx. index_contains (nd_shape A) idx p) (dn @ idxs)) \<le> 1"
  shows "\<exists>cs st'. shard_chunks dt (Some m) r dev idxs st = (Inr cs, st')
    \<and> map index cs = idxs \<and> list_all (chunk_holds A) cs
    \<and> list_all (\<lambda>c. updates c = []) cs
    \<and> length st' = length st \<and> nd_shape (st' ! r) = nd_shape A
    \<and> (\<forall>p. (\<forall>idx\<in>set (dn @ idxs). \<not> index_contains (nd_shape A) idx p)
          \<longrightarrow> nd_data (st' ! r) p = nd_data A p)"
  using r sh inv ok dj
proof (induction idxs arbitrary: st dn)
  case Nil
  then show ?case by simp
next
  case (Cons idx idxs)
  note r = Cons.prems(1) and sh = Cons.prems(2) and inv = Cons.prems(3)
    and dj = Cons.prems(5)
  have ok1: "chunk_index_ok (nd_shape A) idx"
    and ok2: "list_all (chunk_index_ok (nd_shape A)) idxs" using Cons.prems(4) by simp_all
  obtain rs where rs: "expand_index (nd_shape A) idx = Inr rs"
    using expand_index_chunk_ok [OF vs ok1] by blast
  have rs': "expand_index (nd_shape (st ! r)) idx = Inr rs" using rs sh by simp
  define v where "v = \<lparr>nd_shape = map range_len rs,
      nd_data = (\<lambda>j. nd_data (st ! r) (global_index rs j))\<rparr>"
  have gi: "getitem (st ! r) idx = Inr v" by (simp add: getitem_def rs' v_def)
  define c where "c = \<lparr>data = v, device = dev, index = idx, updates = []\<rparr>"
  have cont: "index_contains (nd_shape A) idx p = in_region rs p" for p
    by (simp add: index_contains_def rs)
  have hold: "chunk_holds A c"
  proof -
    have "nd_data v (local_index rs p) = nd_data A p" if "in_region rs p" for p
    proof -
      have "\<forall>y\<in>set dn. \<not> index_contains (nd_shape A) y p"
        by (rule filter_le1_prefix [OF dj [of p]]) (simp add: cont that)
      then have "nd_data (st ! r) p = nd_data A p" by (rule inv)
      then show ?thesis by (simp add: v_def in_region_local(2) [OF that])
    qed
    then show ?thesis by (simp add: chunk_holds_def c_def rs v_def)
  qed
  define a' where "a' = (if \<not> idempotent m
      then (st ! r)\<lparr>nd_data := (\<lambda>p. if in_region rs p then identity_of dt m
                                    else nd_data (st ! r) p)\<rparr>
      else st ! r)"
  have up: "(if \<not> idempotent m then setitem (st ! r) idx (scalar (identity_of dt m))
             else Inr (st ! r)) = Inr a'"
    by (simp add: a'_def setitem_scalar [OF rs'])
  let ?st = "st[r := a']"
  have r2: "r < length ?st" using r by simp
  have sh2: "nd_shape (?st ! r) = nd_shape A" using r sh by (simp add: a'_def)
  have inv2: "nd_data (?st ! r) p = nd_data A p"
    if "\<forall>idx\<in>set (dn @ [idx]). \<not> index_contains (nd_shape A) idx p" for p
  proof -
    have "\<not> in_region rs p" using that cont by simp
    moreover have "nd_data (st ! r) p = nd_data A p" by (rule inv) (use that in simp)
    ultimately show ?thesis using r by (simp add: a'_def)
  qed
  have dj2: "length (filter (\<lambda>idx. index_contains (nd_shape A) idx p) ((dn @ [idx]) @ idxs)) \<le> 1"
    for p using dj [of p] by simp
  from Cons.IH [OF r2 sh2 inv2 ok2 dj2]
  obtain cs st' where rec: "shard_chunks dt (Some m) r dev idxs ?st = (Inr cs, st')"
    and ix: "map index cs = idxs" and ho: "list_all (chunk_holds A) cs"
    and uu: "list_all (\<lambda>c. updates c = []) cs"
    and ls: "length st' = length ?st" and ss: "nd_shape (st' ! r) = nd_shape A"
    and iv: "\<And>p. (\<forall>idx\<in>set ((dn @ [idx]) @ idxs). \<not> index_contains (nd_shape A) idx p)
          \<Longrightarrow> nd_data (st' ! r) p = nd_data A p"
    by blast
  have "shard_chunks dt (Some m) r dev (idx # idxs) st = (Inr (c # cs), st')"
    using gi up rec by (simp add: Let_def c_def)
  then show ?case using ix ho uu ls ss iv hold by (auto simp: c_def)
qed

lemma shard_devices_op:
  assumes r: "r < length st"
    and sh: "nd_shape (st ! r) = nd_shape A" and vs: "valid_shape (nd_shape A)"
    and inv: "\<And>p. (\<forall>idx\<in>set dn. \<not> index_contains (nd_shape A) idx p)
                \<Longrightarrow> nd_data (st ! r) p = nd_data A p"
    and ok: "list_all (chunk_index_ok (nd_shape A)) (concat (map snd nim))"
    and dj: "\<And>p. length (filter (\<lambda>idx. index_contains (nd_shape A) idx p)
                         (dn @ concat (map snd nim))) \<le> 1"
  shows "\<exists>cm st'. shard_devices dt (Some m) r nim st = (Inr cm, st')
    \<and> map index (chunks_list_of cm) = concat (map snd nim)
    \<and> list_all (chunk_holds A) (chunks_list_of cm)
    \<and> list_all (\<lambda>c. updates c = []) (chunks_list_of cm)
    \<and> nd_shape (st' ! r) = nd_shape A"
  using r sh inv ok dj
proof (induction nim arbitrary: st dn)
  case Nil
  then show ?case by (simp add: chunks_list_of_def)
next
  case (Cons a nim)
  obtain dev idxs where a: "a = (dev, idxs)" by (cases a)
  note r = Cons.prems(1) and sh = Cons.prems(2) and inv = Cons.prems(3)
  have ok1: "list_all (chunk_index_ok (nd_shape A)) idxs"
    and ok2: "list_all (chunk_index_ok (nd_shape A)) (concat (map snd nim))"
    using Cons.prems(4) a by simp_all
  have dj: "length (filter (\<lambda>idx. index_contains (nd_shape A) idx p)
                         (dn @ idxs @ concat (map snd nim))) \<le> 1" for p
    using Cons.prems(5) [of p] a by simp
  have dj1: "length (filter (\<lambda>idx. index_contains (nd_shape A) idx p) (dn @ idxs)) \<le> 1" for p
    using dj [of p] by simp
  obtain cs st1 where c1: "shard_chunks dt (Some m) r dev idxs st = (Inr cs, st1)"
    and ix: "map index cs = idxs" and ho: "list_all (chunk_holds A) cs"
    and uu: "list_all (\<lambda>c. updates c = []) cs"
    and ls: "length st1 = length st" and ss: "nd_shape (st1 ! r) = nd_shape A"
    and iv: "\<And>p. (\<forall>idx\<in>set (dn @ idxs). \<not> index_contains (nd_shape A) idx p)
          \<Longrightarrow> nd_data (st1 ! r) p = nd_data A p"
    using shard_chunks_op [OF r sh vs inv ok1 dj1] by blast
  have r1: "r < length st1" using r ls by simp
  have dj2: "length (filter (\<lambda>idx. index_contains (nd_shape A) idx p)
                         ((dn @ idxs) @ concat (map snd nim))) \<le> 1" for p
    using dj [of p] by simp
  from Cons.IH [OF r1 ss iv ok2 dj2]
  obtain cm st2 where c2: "shard_devices dt (Some m) r nim st1 = (Inr cm, st2)"
    and ix2: "map index (chunks_list_of cm) = concat (map snd nim)"
    and ho2: "list_all (chunk_holds A) (chunks_list_of cm)"
    and uu2: "list_all (\<lambda>c. updates c = []) (chunks_list_of cm)"
    and ss2: "nd_shape (st2 ! r) = nd_shape A" by blast
  have "shard_devices dt (Some m) r (a # nim) st = (Inr ((dev, cs) # cm), st2)"
    using a c1 c2 by simp
  then show ?case using ix ho uu ix2 ho2 uu2 ss2 a by (simp add: chunks_list_of_def)
qed

lemma new_DistributedArray_ok2:
  assumes "comms_available nccl_available comms"
  shows "\<exists>cs. new_DistributedArray nccl_available shape cm mode comms
      = Inr \<lparr>d_shape = shape, d_chunks_map = cm, d_mode = mode, d_comms = cs\<rparr>
    \<and> comms_available nccl_available (Some cs)"
  using assms
  by (auto simp: new_DistributedArray_def comms_available_def split: option.splits list.splits)

lemma disjoint_regions_all:
  assumes "disjoint_regions shape idxs"
  shows "length (filter (\<lambda>idx. index_contains shape idx p) idxs) \<le> 1"
proof (cases "p \<in> set (ndindex shape)")
  case True
  then show ?thesis using assms by (simp add: disjoint_regions_def list_all_iff)
next
  case False
  then have "\<forall>idx\<in>set idxs. \<not> index_contains shape idx p"
    using index_contains_ndindex by blast
  then have "filter (\<lambda>idx. index_contains shape idx p) idxs = []"
    by (simp add: filter_empty_conv)
  then show ?thesis by simp
qed

lemma disjoint_regions_no_overlap:
  assumes dj: "disjoint_regions shape idxs" and vs: "valid_shape shape"
    and ok: "list_all (chunk_index_ok shape) idxs"
    and i: "i < length idxs" and j: "j < length idxs" and ne: "i \<noteq> j"
  shows "index_intersection (idxs ! i) (idxs ! j) shape = Inr None"
proof -
  have oi: "chunk_index_ok shape (idxs ! i)" and oj: "chunk_index_ok shape (idxs ! j)"
    using ok i j by (simp_all add: list_all_length)
  have "\<not> index_contains shape (idxs ! j) p" if c: "index_contains shape (idxs ! i) p" for p
  proof (cases "i < j")
    case True
    then show ?thesis using disjoint_regionsD [OF dj True j c] by simp
  next
    case False
    then have ji: "j < i" using ne by simp
    show ?thesis
    proof
      assume "index_contains shape (idxs ! j) p"
      from disjoint_regionsD [OF dj ji i this] c show False by simp
    qed
  qed
  then show ?thesis by (rule index_intersection_disjoint [OF oi oj vs])
qed

text \<open>
  Claim C2, for arrays with at least one axis.  Let the array have axes of nonnegative
  size and at least one of them, let the validation accept the index map, let the regions
  of the validated index map cover the shape without gaps and let no cell lie in two of
  them, and let communicators be given or NCCL be available.  Then \<open>distributed_array\<close> in
  the mode \<^verbatim>\<open>sum\<close> returns a distributed array, \<^verbatim>\<open>change_mode("replica")\<close> of it returns
  one, \<open>asnumpy\<close> of that returns an array, and that array has the shape and the cells of
  the host array: no cell is added twice.
\<close>

theorem sum_mode_partition_to_replica:
  assumes va: "valid_array_arg st array"
    and vs: "valid_shape (nd_shape (array_value st array))"
    and nz: "nd_shape (array_value st array) \<noteq> []"
    and cv: "convert_index_map (nd_shape (array_value st array)) index_map = Inr new_index_map"
    and co: "covers (nd_shape (array_value st array)) (concat (map snd new_index_map))"
    and dj: "disjoint_regions (nd_shape (array_value st array)) (concat (map snd new_index_map))"
    and ca: "comms_available nccl_available comms"
  shows "\<exists>d d' a. fst (distributed_array nccl_available dt st array index_map ''sum'' comms)
        = Inr d
      \<and> change_mode nccl_available dt d ''replica'' = Inr d'
      \<and> asnumpy uninit dt d' = Inr a \<and> array_equal a (array_value st array)"
proof -
  define A where "A = array_value st array"
  define L where "L = concat (map snd new_index_map)"
  define rs where "rs = (case array of
                  ArrayLike v \<Rightarrow> (length st, st @ [v])
                | NdArray r \<Rightarrow>
                    if ''sum'' \<noteq> ''replica'' then (length st, st @ [st ! r]) else (r, st))"
  define r where "r = length st"
  define st1 where "st1 = st @ [A]"
  have rs: "rs = (r, st1)"
    by (auto simp: rs_def r_def st1_def A_def array_value_def split: array_arg.splits)
  have A1: "st1 ! r = A" and r1: "r < length st1" by (simp_all add: st1_def r_def)
  have vsA: "valid_shape (nd_shape A)" using vs by (simp add: A_def)
  have ok: "list_all (chunk_index_ok (nd_shape A)) L"
    unfolding A_def L_def by (rule convert_index_map_ok [OF cv])
  have djA: "disjoint_regions (nd_shape A) L" using dj by (simp add: A_def L_def)
  have dj0: "length (filter (\<lambda>idx. index_contains (nd_shape A) idx p)
      ([] @ concat (map snd new_index_map))) \<le> 1" for p
    using disjoint_regions_all [OF djA, of p] by (simp add: L_def)
  have sh1: "nd_shape (st1 ! r) = nd_shape A" using A1 by simp
  have inv0: "nd_data (st1 ! r) p = nd_data A p"
    if "\<forall>idx\<in>set []. \<not> index_contains (nd_shape A) idx p" for p using A1 by simp
  obtain cm st2 where sd: "shard_devices dt (Some SumMode) r new_index_map st1 = (Inr cm, st2)"
    and ix: "map index (chunks_list_of cm) = L"
    and ho: "list_all (chunk_holds A) (chunks_list_of cm)"
    and up: "list_all (\<lambda>c. updates c = []) (chunks_list_of cm)"
    and shp: "nd_shape (st2 ! r) = nd_shape A"
    using shard_devices_op [OF r1 sh1 vsA inv0 ok [unfolded L_def] dj0] unfolding L_def by blast
  obtain cs where nw: "new_DistributedArray nccl_available (nd_shape A) cm (Some SumMode) comms
      = Inr \<lparr>d_shape = nd_shape A, d_chunks_map = cm, d_mode = Some SumMode, d_comms = cs\<rparr>"
    and ca2: "comms_available nccl_available (Some cs)"
    using new_DistributedArray_ok2 [OF ca] by blast
  define d where
    "d = \<lparr>d_shape = nd_shape A, d_chunks_map = cm, d_mode = Some SumMode, d_comms = cs\<rparr>"
  have cv1: "convert_index_map (nd_shape (st1 ! r)) index_map = Inr new_index_map"
    using cv A1 A_def by simp
  have res: "fst (distributed_array nccl_available dt st array index_map ''sum'' comms) = Inr d"
    using cv1 sd nw shp
    by (simp add: distributed_array_def MODES_def rs [unfolded rs_def] d_def)
  have no: "index_intersection (index (chunks_list_of (d_chunks_map d) ! i))
            (index (chunks_list_of (d_chunks_map d) ! j)) (d_shape d) = Inr None"
    if "i < length (chunks_list_of (d_chunks_map d))"
      "j < length (chunks_list_of (d_chunks_map d))" "i \<noteq> j" for i j
  proof -
    have l: "length (chunks_list_of cm) = length L" using ix by (metis length_map)
    have i: "i < length L" and j: "j < length L" using that l by (simp_all add: d_def)
    have "index (chunks_list_of cm ! i) = L ! i" "index (chunks_list_of cm ! j) = L ! j"
      using ix i j l by (metis nth_map)+
    then show ?thesis
      using disjoint_regions_no_overlap [OF djA vsA ok i j that(3)] by (simp add: d_def)
  qed
  have rm: "replica_mode_chunks_map dt d = Inr (d_chunks_map d)"
    by (rule replica_mode_chunks_map_noop) (use up no in \<open>simp_all add: d_def\<close>)
  obtain cs' where nw': "new_DistributedArray nccl_available (nd_shape A) cm None (Some cs)
      = Inr \<lparr>d_shape = nd_shape A, d_chunks_map = cm, d_mode = None, d_comms = cs'\<rparr>"
    using new_DistributedArray_ok [OF ca2] by blast
  define d' where
    "d' = \<lparr>d_shape = nd_shape A, d_chunks_map = cm, d_mode = None, d_comms = cs'\<rparr>"
  have cm': "change_mode nccl_available dt d ''replica'' = Inr d'"
    using rm nw' by (simp add: change_mode_def MODES_def d_def d'_def)
  have "\<exists>a. asnumpy uninit dt d' = Inr a \<and> nd_shape a = nd_shape A
    \<and> (\<forall>p. nd_data a p
          = (if list_ex (\<lambda>idx. index_contains (nd_shape A) idx p)
                  (map index (chunks_list_of (d_chunks_map d')))
             then nd_data A p else uninit p))"
    by (rule asnumpy_replica) (use ho up nz in \<open>simp_all add: d'_def A_def\<close>)
  then obtain a where a: "asnumpy uninit dt d' = Inr a" and sa: "nd_shape a = nd_shape A"
    and da: "\<And>p. nd_data a p
          = (if list_ex (\<lambda>idx. index_contains (nd_shape A) idx p) L
             then nd_data A p else uninit p)"
    using ix by (auto simp: d'_def)
  have "nd_data a p = nd_data A p" if "p \<in> set (ndindex (nd_shape A))" for p
    using co that da [of p] by (simp add: covers_def A_def L_def list_all_iff)
  then have "array_equal a A" using sa by (simp add: array_equal_def list_all_iff)
  then show ?thesis using res cm' a by (auto simp: A_def)
qed

text \<open>
  The theorem for the matrix of shape \<^verbatim>\<open>(4, 4)\<close> in the mode \<^verbatim>\<open>sum\<close>, the first two rows
  on device 0 and the last two on device 1.
\<close>

theorem sum_mode_partition_to_replica_witness:
  "\<exists>d d' a. fst (distributed_array True int64_dtype [mat44] (NdArray 0) row_split ''sum'' None)
        = Inr d
      \<and> change_mode True int64_dtype d ''replica'' = Inr d'
      \<and> asnumpy (\<lambda>j. 0) int64_dtype d' = Inr a \<and> array_equal a mat44"
proof -
  have av: "array_value [mat44] (NdArray 0) = mat44" by (simp add: array_value_def)
  have 1: "valid_array_arg [mat44] (NdArray 0)" by (simp add: valid_array_arg_def)
  have 2: "valid_shape (nd_shape (array_value [mat44] (NdArray 0)))" by code_simp
  have 3: "nd_shape (array_value [mat44] (NdArray 0)) \<noteq> []" by code_simp
  have 4: "convert_index_map (nd_shape (array_value [mat44] (NdArray 0))) row_split
      = Inr row_split_slices" by code_simp
  have 5: "covers (nd_shape (array_value [mat44] (NdArray 0))) (concat (map snd row_split_slices))"
    by code_simp
  have 6: "disjoint_regions (nd_shape (array_value [mat44] (NdArray 0)))
      (concat (map snd row_split_slices))"
    by code_simp
  have 7: "comms_available True None" by (simp add: comms_available_def)
  show ?thesis
    using sum_mode_partition_to_replica [OF 1 2 3 4 5 6 7, of int64_dtype "\<lambda>j. 0"]
    unfolding av .
qed

text \<open>
  Claim C2 as the specification words it, for every partitioned array, fails on an array
  without axes.  The array \<^verbatim>\<open>numpy.array(5)\<close> of shape \<^verbatim>\<open>()\<close> with the index map \<^verbatim>\<open>{0: ()}\<close>
  in the mode \<^verbatim>\<open>sum\<close> has one chunk, which is the whole array; \<^verbatim>\<open>change_mode("replica")\<close>
  keeps it; and \<open>asnumpy\<close> returns \<^verbatim>\<open>[5]\<close> of shape \<^verbatim>\<open>(1,)\<close>, since the result of
  \<^verbatim>\<open>numpy.atleast_1d\<close> is returned as it is.
\<close>

theorem sum_mode_partition_0d_counterexample:
  "valid_array_arg [scalar (5::int)] (NdArray 0)
   \<and> valid_shape (nd_shape (array_value [scalar (5::int)] (NdArray 0)))
   \<and> convert_index_map (nd_shape (array_value [scalar (5::int)] (NdArray 0)))
        [(0, IdxOne (IdxTuple []))] = Inr [(0, [[]])]
   \<and> covers (nd_shape (array_value [scalar (5::int)] (NdArray 0))) (concat (map snd [(0::int, [[]])]))
   \<and> disjoint_regions (nd_shape (array_value [scalar (5::int)] (NdArray 0)))
        (concat (map snd [(0::int, [[]])]))
   \<and> comms_available True None
   \<and> (\<exists>d d' a. fst (distributed_array True int64_dtype [scalar 5] (NdArray 0)
                 [(0, IdxOne (IdxTuple []))] ''sum'' None) = Inr d
          \<and> change_mode True int64_dtype d ''replica'' = Inr d'
          \<and> asnumpy (\<lambda>j. 0) int64_dtype d' = Inr a
          \<and> nd_shape a = [1] \<and> tolist a = [5]
          \<and> \<not> array_equal a (array_value [scalar 5] (NdArray 0)))"
proof -
  let ?r = "fst (distributed_array True int64_dtype [scalar (5::int)] (NdArray 0)
                 [(0, IdxOne (IdxTuple []))] ''sum'' None)"
  let ?c = "ebind ?r (\<lambda>d. change_mode True int64_dtype d ''replica'')"
  have e: "(case ebind ?c (asnumpy (\<lambda>j. 0) int64_dtype) of
             Inl e \<Rightarrow> None | Inr a \<Rightarrow> Some (nd_shape a, tolist a)) = Some ([1], [5])"
    by code_simp
  then obtain d where d: "?r = Inr d" by (cases ?r) simp_all
  with e obtain d' where d': "change_mode True int64_dtype d ''replica'' = Inr d'"
    by (cases "change_mode True int64_dtype d ''replica''") simp_all
  with e d obtain a where a: "asnumpy (\<lambda>j. 0) int64_dtype d' = Inr a"
    by (cases "asnumpy (\<lambda>j. 0) int64_dtype d'") simp_all
  have sa: "nd_shape a = [1]" "tolist a = [5]" using e d d' a by simp_all
  have ne: "\<not> array_equal a (array_value [scalar 5] (NdArray 0))"
    using sa by (simp add: array_equal_def array_value_def scalar_def)
  have "valid_array_arg [scalar (5::int)] (NdArray 0)" by (simp add: valid_array_arg_def)
  moreover have "valid_shape (nd_shape (array_value [scalar (5::int)] (NdArray 0)))" by code_simp
  moreover have "convert_index_map (nd_shape (array_value [scalar (5::int)] (NdArray 0)))
        [(0, IdxOne (IdxTuple []))] = Inr [(0, [[]])]" by code_simp
  moreover have "covers (nd_shape (array_value [scalar (5::int)] (NdArray 0)))
      (concat (map snd [(0::int, [[]])]))" by code_simp
  moreover have "disjoint_regions (nd_shape (array_value [scalar (5::int)] (NdArray 0)))
      (concat (map snd [(0::int, [[]])]))" by code_simp
  moreover have "comms_available True None" by (simp add: comms_available_def)
  ultimately show ?thesis using d d' a sa ne by blast
qed

section \<open>Applying a chunk onto another\<close>

subsection \<open>The cells of an intersection on one axis\<close>




subsection \<open>The cells of an intersection of two regions\<close>











section \<open>Kernel execution with pending updates\<close>

subsection \<open>The pending updates of one chunk\<close>












subsection \<open>Devices and dictionaries\<close>















subsection \<open>Materializing results\<close>














subsection \<open>The lazy and the eager execution\<close>




end
